theory Spec2Isabelle
  imports
    Main
    "HOL-Library.Multiset"
    "HOL-Library.Product_Lexorder"
    "HOL-Library.List_Lexorder"
    "HOL-Library.Char_ord"
    "HOL-Library.Option_ord"
begin

chapter \<open>The chart repository index and the repository provider\<close>

text \<open>
  A shallow embedding of \<^verbatim>\<open>pkg/repo/index.go\<close> (the index file of a chart
  repository: lookup, merge, sort, loading of the deprecated format) and of the
  repository provider (the cache of chart repositories, looked up by name and by URL).

  Conventions of the embedding.
  \<^item> A Go string is a \<open>string\<close> (a list of bytes), a slice is a list, a Go map is a
    partial function. Ranging over a Go map visits every key once, in an order the
    language leaves open: every function that ranges over a map takes the order of
    the visit as an argument, and the theorems hold for every order.
  \<^item> A function with an \<open>error\<close> result returns a sum: \<open>Inl\<close> the error,
    \<open>Inr\<close> the value.
  \<^item> A record of the index is held by value: the embedding covers indexes whose record
    pointers and metadata pointers are not nil and whose \<open>Entries\<close> map is allocated.
    The one pointer the code tests against nil, \<open>Chartfile\<close> of the deprecated
    format, is an option.
  \<^item> A reading of \<open>time.Now()\<close> is an argument of the function that reads the
    clock; the loader, which reads it several times, takes the readings from a clock
    function.
  \<^item> Code outside the sources (the YAML and JSON decoders, the URL and path functions,
    the semantic-version library, the sort of the standard library) is a parameter
    where its result is only passed on, and a model, marked as such, where a property
    depends on what it computes.
\<close>

section \<open>Data model\<close>

type_synonym time = nat

text \<open>\<open>chart.Metadata\<close>: the two fields the index reads. The remaining fields of the
  chart descriptor are passed through and never inspected.\<close>

record Metadata =
  Name :: string
  Version :: string

text \<open>\<open>ChartVersion\<close> embeds the metadata and adds the index's own fields.\<close>

record ChartVersion = Metadata +
  URLs :: "string list"
  Created :: time
  Removed :: bool
  Digest :: string

type_synonym ChartVersions = "ChartVersion list"

record IndexFile =
  APIVersion :: string
  Generated :: time
  Entries :: "string \<rightharpoonup> ChartVersions"
  PublicKeys :: "string list"

text \<open>The errors of the index: the three sentinels, the formatted error of \<open>Get\<close>
  (\<open>"No chart version found for %s-%s"\<close>, kept with its two arguments), and the
  error of a parser, which is never one of the sentinels.\<close>

datatype index_error =
    ErrNoAPIVersion
  | ErrNoChartVersion
  | ErrNoChartName
  | ErrVersionNotFound string string
  | ErrParse string

definition APIVersionV1 :: string where
  "APIVersionV1 = ''v1''"

definition NewIndexFile :: "time \<Rightarrow> IndexFile" where
  "NewIndexFile now =
     \<lparr>APIVersion = APIVersionV1, Generated = now, Entries = Map.empty, PublicKeys = []\<rparr>"

section \<open>Lookup\<close>

text \<open>The loop of \<open>Get\<close>: the first record whose version is the string asked for.\<close>

fun Get_loop :: "ChartVersions \<Rightarrow> string \<Rightarrow> ChartVersion option" where
  "Get_loop [] version = None"
| "Get_loop (ver # vs) version =
     (if Version ver = version then Some ver else Get_loop vs version)"

definition Get :: "IndexFile \<Rightarrow> string \<Rightarrow> string \<Rightarrow> index_error + ChartVersion" where
  "Get i name version =
     (case Entries i name of
        None \<Rightarrow> Inl ErrNoChartName
      | Some vs \<Rightarrow>
          if length vs = 0 then Inl ErrNoChartVersion
          else if length version = 0 then Inr (vs ! 0)
          else (case Get_loop vs version of
                  Some ver \<Rightarrow> Inr ver
                | None \<Rightarrow> Inl (ErrVersionNotFound name version)))"

definition Has :: "IndexFile \<Rightarrow> string \<Rightarrow> string \<Rightarrow> bool" where
  "Has i name version = (case Get i name version of Inl err \<Rightarrow> False | Inr cv \<Rightarrow> True)"

section \<open>Merge\<close>

text \<open>\<open>i.Entries[name]\<close> read as a value: the nil slice when the name is absent.\<close>

definition entriesAt :: "IndexFile \<Rightarrow> string \<Rightarrow> ChartVersions" where
  "entriesAt i name = (case Entries i name of None \<Rightarrow> [] | Some e \<Rightarrow> e)"

text \<open>The body of the inner loop of \<open>Merge\<close>, for one record \<open>cv\<close> of the other index.\<close>

definition Merge_record :: "IndexFile \<Rightarrow> ChartVersion \<Rightarrow> IndexFile" where
  "Merge_record i cv =
     (if \<not> Has i (Name cv) (Version cv)
      then i\<lparr>Entries := (Entries i)(Name cv \<mapsto> entriesAt i (Name cv) @ [cv])\<rparr>
      else i)"

text \<open>The inner loop: the records of one list of the other index, in order.\<close>

fun Merge_versions :: "IndexFile \<Rightarrow> ChartVersions \<Rightarrow> IndexFile" where
  "Merge_versions i [] = i"
| "Merge_versions i (cv # cvs) = Merge_versions (Merge_record i cv) cvs"

text \<open>The outer loop, \<open>i.Merge(f)\<close> for an index \<open>f\<close> that is not \<open>i\<close> itself:
  \<open>ks\<close> is the order in which the range visits the names of \<open>f.Entries\<close>.\<close>

fun Merge :: "IndexFile \<Rightarrow> IndexFile \<Rightarrow> string list \<Rightarrow> IndexFile" where
  "Merge i f [] = i"
| "Merge i f (k # ks) = Merge (Merge_versions i (entriesAt f k)) f ks"


text \<open>An order of visit for a range over the map \<open>m\<close>: every key once.\<close>

definition range_order :: "('k \<rightharpoonup> 'v) \<Rightarrow> 'k list \<Rightarrow> bool" where
  "range_order m ks = (distinct ks \<and> set ks = dom m)"

section \<open>Adding a record\<close>

text \<open>\<open>url.URL\<close> as \<open>urlJoin\<close> uses it: the path, and everything else of the
  parsed URL.\<close>

record url =
  Path :: string
  Rest :: string

text \<open>The library functions the index calls, as parameters: the clock (the \<open>n\<close>-th
  reading of \<open>time.Now()\<close> during one call), \<open>url.Parse\<close> and \<open>URL.String\<close>,
  \<open>path.Join\<close>, \<open>filepath.Split\<close> and \<open>filepath.Join\<close>, and the three
  decoders \<open>yaml.Unmarshal\<close> (into an \<open>IndexFile\<close>), \<open>yaml.YAMLToJSON\<close> and
  \<open>json.Unmarshal\<close> (into the map of the deprecated format, listed in the order the
  loader's range visits it). A decoder returns its error text on the left.\<close>

record unversionedEntry =
  Checksum :: string
  URL :: string
  Chartfile :: "Metadata option"

record lib =
  clock :: "nat \<Rightarrow> time"
  urlParse :: "string \<Rightarrow> string + url"
  urlString :: "url \<Rightarrow> string"
  pathJoin :: "string list \<Rightarrow> string"
  filepathSplit :: "string \<Rightarrow> string \<times> string"
  filepathJoin :: "string list \<Rightarrow> string"
  yamlUnmarshal :: "string \<Rightarrow> string + IndexFile"
  yamlToJSON :: "string \<Rightarrow> string + string"
  jsonUnmarshal :: "string \<Rightarrow> string + (string \<times> unversionedEntry) list"

definition urlJoin :: "lib \<Rightarrow> string \<Rightarrow> string list \<Rightarrow> string + string" where
  "urlJoin l baseURL paths =
     (case urlParse l baseURL of
        Inl err \<Rightarrow> Inl err
      | Inr u \<Rightarrow> Inr (urlString l (u\<lparr>Path := pathJoin l (Path u # paths)\<rparr>)))"

text \<open>\<open>Add\<close>; \<open>now\<close> is the reading of the clock for \<open>Created\<close>.\<close>

definition Add ::
  "lib \<Rightarrow> time \<Rightarrow> IndexFile \<Rightarrow> Metadata \<Rightarrow> string \<Rightarrow> string \<Rightarrow> string \<Rightarrow> IndexFile" where
  "Add l now i md filename baseURL digest =
     (let u = (if baseURL \<noteq> ''''
               then (let file = snd (filepathSplit l filename)
                     in case urlJoin l baseURL [file] of
                          Inl err \<Rightarrow> filepathJoin l [baseURL, file]
                        | Inr joined \<Rightarrow> joined)
               else filename);
          cr = \<lparr>Name = Name md, Version = Version md,
                URLs = [u], Created = now, Removed = False, Digest = digest\<rparr>
      in case Entries i (Name md) of
           None \<Rightarrow> i\<lparr>Entries := (Entries i)(Name md \<mapsto> [cr])\<rparr>
         | Some ee \<Rightarrow> i\<lparr>Entries := (Entries i)(Name md \<mapsto> ee @ [cr])\<rparr>)"

section \<open>Loading an index\<close>

text \<open>\<open>strings.Split(s, sep)\<close> for a separator of one byte (the loader splits on
  \<open>"-"\<close>): the pieces of \<open>s\<close> between the separators, one more than there are
  separators.\<close>

fun Split :: "string \<Rightarrow> char \<Rightarrow> string list" where
  "Split [] sep = [[]]"
| "Split (c # s) sep =
     (if c = sep then [] # Split s sep
      else (case Split s sep of
              p # ps \<Rightarrow> (c # p) # ps
            | [] \<Rightarrow> [[c]]))"

definition HasSuffix :: "string \<Rightarrow> string \<Rightarrow> bool" where
  "HasSuffix s suffix =
     (length s \<ge> length suffix \<and> drop (length s - length suffix) s = suffix)"

definition TrimSuffix :: "string \<Rightarrow> string \<Rightarrow> string" where
  "TrimSuffix s suffix =
     (if HasSuffix s suffix then take (length s - length suffix) s else s)"

text \<open>The descriptor the loader builds from the key \<open>n\<close> when the entry has none, or
  one with an empty name.\<close>

definition keyMetadata :: "string \<Rightarrow> Metadata" where
  "keyMetadata n =
     (let parts = Split n (CHR ''-'');
          ver = (if length parts > 1 then TrimSuffix (parts ! 1) ''.tgz'' else '''')
      in \<lparr>Name = parts ! 0, Version = ver\<rparr>)"

text \<open>\<open>item.Chartfile\<close> after the \<open>if\<close> of the loop body.\<close>

definition legacyChartfile :: "string \<Rightarrow> unversionedEntry \<Rightarrow> Metadata" where
  "legacyChartfile n item =
     (case Chartfile item of
        None \<Rightarrow> keyMetadata n
      | Some md \<Rightarrow> if Name md = '''' then keyMetadata n else md)"

text \<open>The loop of \<open>loadUnversionedIndex\<close> over the entries of the map; \<open>t\<close> counts
  the readings of the clock.\<close>

fun loadUnversioned_loop ::
  "lib \<Rightarrow> IndexFile \<Rightarrow> nat \<Rightarrow> (string \<times> unversionedEntry) list \<Rightarrow> IndexFile" where
  "loadUnversioned_loop l ni t [] = ni"
| "loadUnversioned_loop l ni t ((n, item) # rest) =
     loadUnversioned_loop l
       (Add l (clock l t) ni (legacyChartfile n item) (URL item) '''' (Checksum item))
       (Suc t) rest"

text \<open>\<open>loadUnversionedIndex\<close>. The warning it prints on the standard error stream is
  not part of the result.\<close>

definition loadUnversionedIndex :: "lib \<Rightarrow> string \<Rightarrow> index_error + IndexFile" where
  "loadUnversionedIndex l data =
     (case yamlToJSON l data of
        Inl err \<Rightarrow> Inl (ErrParse err)
      | Inr js \<Rightarrow>
          (case jsonUnmarshal l js of
             Inl err \<Rightarrow> Inl (ErrParse err)
           | Inr i \<Rightarrow>
               if length i = 0 then Inl ErrNoAPIVersion
               else Inr (loadUnversioned_loop l (NewIndexFile (clock l 0)) 1 i)))"

text \<open>\<open>LoadIndex\<close>. When the decoder fails the code returns the error beside the
  index it was filling; the result here is the error.\<close>

definition LoadIndex :: "lib \<Rightarrow> string \<Rightarrow> index_error + IndexFile" where
  "LoadIndex l data =
     (case yamlUnmarshal l data of
        Inl err \<Rightarrow> Inl (ErrParse err)
      | Inr i \<Rightarrow> if APIVersion i = '''' then loadUnversionedIndex l data else Inr i)"

text \<open>The version the specification's words give for a key: the entire portion after
  the first \<open>-\<close>, with a trailing archive extension removed, or the empty string when
  the key has no \<open>-\<close>. It is compared with what the loader computes.\<close>

definition spec_key_version :: "string \<Rightarrow> string" where
  "spec_key_version n =
     (if CHR ''-'' \<in> set n
      then TrimSuffix (tl (dropWhile (\<lambda>c. c \<noteq> CHR ''-'') n)) ''.tgz''
      else '''')"

section \<open>The repository provider\<close>

text \<open>Modelled from the spec: the interfaces \<open>IRepo\<close> and \<open>IChartRepo\<close> are declared
  in a file of the package that is not among the sources. A repository descriptor is
  modelled by the four methods the provider calls on it (name, URL, credential name,
  type); a chart repository, the handle the provider caches, answers the same methods,
  so it is the same record.\<close>

datatype ERepoType = GCSRepoType | OtherRepoType string

record IRepo =
  GetName :: string
  GetURL :: string
  GetCredentialName :: string
  GetType :: ERepoType

type_synonym IChartRepo = IRepo

text \<open>The errors of the provider: the two it formats itself (\<open>"unknown repository
  type: %s"\<close>, \<open>"respository named %s already exists"\<close>) and the error of a
  collaborator (the repository service or the storage provider).\<close>

datatype repo_error =
    ErrUnknownRepoType ERepoType
  | ErrRepoExists string
  | ErrCollaborator string

text \<open>\<open>repoProvider\<close>: the repository service \<open>rs\<close> with its two lookups, the
  storage provider \<open>gcsrp\<close>, and the map of the repositories created so far. The
  mutex is held for the whole of every exported method, so a method is a function from
  the state before it to its result and the state after it.\<close>

record repoProvider =
  rs_Get :: "string \<Rightarrow> repo_error + IRepo"
  rs_GetByURL :: "string \<Rightarrow> repo_error + IRepo"
  gcsrp_GetGCSRepo :: "IRepo \<Rightarrow> repo_error + IChartRepo"
  repos :: "string \<rightharpoonup> IChartRepo"

definition createRepo ::
  "repoProvider \<Rightarrow> IChartRepo \<Rightarrow> (repo_error + IChartRepo) \<times> repoProvider" where
  "createRepo rp cr =
     (let name = GetName cr
      in case repos rp name of
           Some old \<Rightarrow> (Inl (ErrRepoExists name), rp)
         | None \<Rightarrow> (Inr cr, rp\<lparr>repos := (repos rp)(name \<mapsto> cr)\<rparr>))"

definition createRepoByType ::
  "repoProvider \<Rightarrow> IRepo \<Rightarrow> (repo_error + IChartRepo) \<times> repoProvider" where
  "createRepoByType rp r =
     (case GetType r of
        GCSRepoType \<Rightarrow>
          (case gcsrp_GetGCSRepo rp r of
             Inl err \<Rightarrow> (Inl err, rp)
           | Inr cr \<Rightarrow> createRepo rp cr)
      | OtherRepoType t \<Rightarrow> (Inl (ErrUnknownRepoType (GetType r)), rp))"

definition GetRepoByName ::
  "repoProvider \<Rightarrow> string \<Rightarrow> (repo_error + IChartRepo) \<times> repoProvider" where
  "GetRepoByName rp repoName =
     (case repos rp repoName of
        Some r \<Rightarrow> (Inr r, rp)
      | None \<Rightarrow>
          (case rs_Get rp repoName of
             Inl err \<Rightarrow> (Inl err, rp)
           | Inr cr \<Rightarrow> createRepoByType rp cr))"

text \<open>\<open>strings.HasPrefix\<close>.\<close>

definition HasPrefix :: "string \<Rightarrow> string \<Rightarrow> bool" where
  "HasPrefix s prefix = (length s \<ge> length prefix \<and> take (length prefix) s = prefix)"

text \<open>The loop of \<open>findRepoByURL\<close>: \<open>found\<close> is the variable of that name
  (\<open>None\<close> for nil), \<open>ks\<close> the names the range has still to visit.\<close>

fun findRepoByURL_loop ::
  "repoProvider \<Rightarrow> string \<Rightarrow> IChartRepo option \<Rightarrow> string list \<Rightarrow> IChartRepo option" where
  "findRepoByURL_loop rp URL' found [] = found"
| "findRepoByURL_loop rp URL' found (k # ks) =
     (case repos rp k of
        None \<Rightarrow> findRepoByURL_loop rp URL' found ks
      | Some r \<Rightarrow>
          (let rURL = GetURL r
           in if HasPrefix URL' rURL
              then (case found of
                      None \<Rightarrow> findRepoByURL_loop rp URL' (Some r) ks
                    | Some f \<Rightarrow>
                        if length (GetURL f) < length rURL
                        then findRepoByURL_loop rp URL' (Some r) ks
                        else findRepoByURL_loop rp URL' found ks)
              else findRepoByURL_loop rp URL' found ks))"

definition findRepoByURL :: "repoProvider \<Rightarrow> string list \<Rightarrow> string \<Rightarrow> IChartRepo option" where
  "findRepoByURL rp ks URL' = findRepoByURL_loop rp URL' None ks"

text \<open>\<open>GetRepoByURL\<close>; \<open>ks\<close> is the order in which the range of \<open>findRepoByURL\<close>
  visits the names of \<open>rp.repos\<close>.\<close>

definition GetRepoByURL ::
  "repoProvider \<Rightarrow> string list \<Rightarrow> string \<Rightarrow> (repo_error + IChartRepo) \<times> repoProvider" where
  "GetRepoByURL rp ks URL' =
     (case findRepoByURL rp ks URL' of
        Some r \<Rightarrow> (Inr r, rp)
      | None \<Rightarrow>
          (case rs_GetByURL rp URL' of
             Inl err \<Rightarrow> (Inl err, rp)
           | Inr cr \<Rightarrow> createRepoByType rp cr))"

section \<open>Semantic versions\<close>

text \<open>Modelled from the spec: the package \<open>github.com/Masterminds/semver\<close>
  (\<open>NewVersion\<close>, \<open>LessThan\<close>) is a library outside the sources. The
  specification asks that a version string be parsed as a semantic version and that
  two well-formed versions be compared by the standard precedence: major, minor,
  patch, then the pre-release tag. The model follows the grammar the library accepts
  (an optional leading \<open>v\<close>, one to three numeric segments, an optional pre-release
  after \<open>-\<close> and optional build metadata after \<open>+\<close>, each a dot-separated list of
  identifiers over letters, digits and \<open>-\<close>) and the precedence of Semantic
  Versioning 2.0.0: numeric segments as numbers, a version with a pre-release below
  the same version without one, pre-release identifiers compared left to right,
  numeric ones as numbers and below the others, the others as byte strings, a shorter
  list below a longer one it is a prefix of. A segment is a natural number of any
  size.\<close>

record semver =
  major :: nat
  minor :: nat
  patch :: nat
  pre :: string
  metadata :: string
  original :: string

definition isDigit :: "char \<Rightarrow> bool" where
  "isDigit c = (c \<in> set ''0123456789'')"

definition isIdentChar :: "char \<Rightarrow> bool" where
  "isIdentChar c =
     (c \<in> set ''0123456789abcdefghijklmnopqrstuvwxyzABCDEFGHIJKLMNOPQRSTUVWXYZ-'')"

definition isNumber :: "string \<Rightarrow> bool" where
  "isNumber s = (s \<noteq> [] \<and> list_all isDigit s)"

definition parseNat :: "string \<Rightarrow> nat" where
  "parseNat s = foldl (\<lambda>n c. 10 * n + (of_char c - 48)) 0 s"

text \<open>A dot-separated list of identifiers, none of them empty.\<close>

definition isIdentList :: "string \<Rightarrow> bool" where
  "isIdentList s = list_all (\<lambda>p. p \<noteq> [] \<and> list_all isIdentChar p) (Split s (CHR ''.''))"

text \<open>The string before the first \<open>sep\<close>, and what follows it when there is one.\<close>

definition cutAt :: "char \<Rightarrow> string \<Rightarrow> string \<times> string option" where
  "cutAt sep s =
     (takeWhile (\<lambda>c. c \<noteq> sep) s,
      if sep \<in> set s then Some (tl (dropWhile (\<lambda>c. c \<noteq> sep) s)) else None)"

definition NewVersion :: "string \<Rightarrow> semver option" where
  "NewVersion v =
     (let s = (case v of [] \<Rightarrow> v | c # r \<Rightarrow> if c = CHR ''v'' then r else v);
          (body, meta) = cutAt (CHR ''+'') s;
          (core, prerelease) = cutAt (CHR ''-'') body;
          nums = Split core (CHR ''.'')
      in if length nums \<le> 3 \<and> list_all isNumber nums \<and>
            (case prerelease of None \<Rightarrow> True | Some p \<Rightarrow> isIdentList p) \<and>
            (case meta of None \<Rightarrow> True | Some m \<Rightarrow> isIdentList m)
         then Some \<lparr>major = parseNat (nums ! 0),
                    minor = (if length nums > 1 then parseNat (nums ! 1) else 0),
                    patch = (if length nums > 2 then parseNat (nums ! 2) else 0),
                    pre = (case prerelease of None \<Rightarrow> '''' | Some p \<Rightarrow> p),
                    metadata = (case meta of None \<Rightarrow> '''' | Some m \<Rightarrow> m),
                    original = v\<rparr>
         else None)"

text \<open>Three-way comparisons: \<open>-1\<close>, \<open>0\<close> or \<open>1\<close>.\<close>

definition compareSegment :: "nat \<Rightarrow> nat \<Rightarrow> int" where
  "compareSegment v o' = (if v < o' then -1 else if v > o' then 1 else 0)"

definition comparePrePart :: "string \<Rightarrow> string \<Rightarrow> int" where
  "comparePrePart s o' =
     (if s = o' then 0
      else if isNumber s \<and> isNumber o' then compareSegment (parseNat s) (parseNat o')
      else if isNumber s then -1
      else if isNumber o' then 1
      else if s < o' then -1 else 1)"

fun comparePreParts :: "string list \<Rightarrow> string list \<Rightarrow> int" where
  "comparePreParts [] [] = 0"
| "comparePreParts [] (o' # os) = -1"
| "comparePreParts (s # ss) [] = 1"
| "comparePreParts (s # ss) (o' # os) =
     (let d = comparePrePart s o' in if d \<noteq> 0 then d else comparePreParts ss os)"

definition comparePrerelease :: "string \<Rightarrow> string \<Rightarrow> int" where
  "comparePrerelease v o' = comparePreParts (Split v (CHR ''.'')) (Split o' (CHR ''.''))"

definition Compare :: "semver \<Rightarrow> semver \<Rightarrow> int" where
  "Compare v o' =
     (let d1 = compareSegment (major v) (major o') in
      if d1 \<noteq> 0 then d1 else
      let d2 = compareSegment (minor v) (minor o') in
      if d2 \<noteq> 0 then d2 else
      let d3 = compareSegment (patch v) (patch o') in
      if d3 \<noteq> 0 then d3 else
      if pre v = '''' \<and> pre o' = '''' then 0
      else if pre v = '''' then 1
      else if pre o' = '''' then -1
      else comparePrerelease (pre v) (pre o'))"

definition LessThan :: "semver \<Rightarrow> semver \<Rightarrow> bool" where
  "LessThan v o' = (Compare v o' < 0)"

text \<open>The precedence of a version as a key in a linear order: two versions compare as
  their keys do (\<open>Compare_less\<close> and \<open>Compare_zero\<close> below).\<close>

definition identKey :: "string \<Rightarrow> nat \<times> nat \<times> string" where
  "identKey s = (if isNumber s then (0, parseNat s, '''') else (1, 0, s))"

definition semverKey :: "semver \<Rightarrow> nat \<times> nat \<times> nat \<times> nat \<times> (nat \<times> nat \<times> string) list" where
  "semverKey v =
     (major v, minor v, patch v,
      (if pre v = '''' then 1 else 0),
      (if pre v = '''' then [] else map identKey (Split (pre v) (CHR ''.''))))"

text \<open>The key of a version string: \<open>None\<close>, below every key, when it does not parse.\<close>

definition versionKey ::
  "string \<Rightarrow> (nat \<times> nat \<times> nat \<times> nat \<times> (nat \<times> nat \<times> string) list) option" where
  "versionKey s = map_option semverKey (NewVersion s)"

section \<open>Sorting the entries\<close>

text \<open>\<open>Len\<close>, \<open>Swap\<close> and \<open>Less\<close> of \<open>ChartVersions\<close>. The comparison of
  \<open>Less\<close> on the two version strings is \<open>VersionOrdering\<close>; \<open>Less\<close> reads the
  strings at the two indices, which the sort keeps below the length.\<close>

definition Len :: "ChartVersions \<Rightarrow> nat" where
  "Len c = length c"

definition Swap :: "ChartVersions \<Rightarrow> nat \<Rightarrow> nat \<Rightarrow> ChartVersions" where
  "Swap c i j = c[i := c ! j, j := c ! i]"

definition VersionOrdering :: "string \<Rightarrow> string \<Rightarrow> bool" where
  "VersionOrdering va vb =
     (case NewVersion va of
        None \<Rightarrow> True
      | Some i \<Rightarrow>
          (case NewVersion vb of
             None \<Rightarrow> False
           | Some j \<Rightarrow> LessThan i j))"

definition Less :: "ChartVersions \<Rightarrow> nat \<Rightarrow> nat \<Rightarrow> bool" where
  "Less c a b = VersionOrdering (Version (c ! a)) (Version (c ! b))"

text \<open>Modelled from the spec: \<open>sort.Sort\<close> and \<open>sort.Reverse\<close> belong to Go's standard
  library, outside the sources. \<open>Reverse\<close> swaps the arguments of \<open>Less\<close>. For
  \<open>Sort\<close> the specification asks for a sort in place, driven by the comparator
  alone, one list at a time; the model is the insertion sort of the library (the pass
  it runs on short slices): for \<open>i\<close> from 1 up to the length, the element at \<open>i\<close>
  is swapped with its left neighbour as long as the comparator \<open>lt\<close> puts it before
  that neighbour.\<close>

definition Reverse ::
  "(ChartVersions \<Rightarrow> nat \<Rightarrow> nat \<Rightarrow> bool) \<Rightarrow> ChartVersions \<Rightarrow> nat \<Rightarrow> nat \<Rightarrow> bool" where
  "Reverse lt c i j = lt c j i"

fun insertionSort_inner ::
  "(ChartVersions \<Rightarrow> nat \<Rightarrow> nat \<Rightarrow> bool) \<Rightarrow> ChartVersions \<Rightarrow> nat \<Rightarrow> ChartVersions" where
  "insertionSort_inner lt c 0 = c"
| "insertionSort_inner lt c (Suc j) =
     (if lt c (Suc j) j then insertionSort_inner lt (Swap c (Suc j) j) j else c)"

definition Sort ::
  "(ChartVersions \<Rightarrow> nat \<Rightarrow> nat \<Rightarrow> bool) \<Rightarrow> ChartVersions \<Rightarrow> ChartVersions" where
  "Sort lt c = foldl (insertionSort_inner lt) c [1..<Len c]"

text \<open>\<open>SortEntries\<close>: every list of the map is sorted in place; the lists are
  independent, so the order of the range does not matter.\<close>

definition SortEntries :: "IndexFile \<Rightarrow> IndexFile" where
  "SortEntries i =
     i\<lparr>Entries := (\<lambda>name. case Entries i name of
                               None \<Rightarrow> None
                             | Some versions \<Rightarrow> Some (Sort (Reverse Less) versions))\<rparr>"

section \<open>Example data\<close>

definition mkChart :: "string \<Rightarrow> string \<Rightarrow> string \<Rightarrow> ChartVersion" where
  "mkChart n v d =
     \<lparr>Name = n, Version = v, URLs = [], Created = 0, Removed = False, Digest = d\<rparr>"

definition mkIndex :: "(string \<rightharpoonup> ChartVersions) \<Rightarrow> IndexFile" where
  "mkIndex es = \<lparr>APIVersion = ''v1'', Generated = 0, Entries = es, PublicKeys = []\<rparr>"

text \<open>An index with an unsorted list under \<open>x\<close> and an empty list under \<open>e\<close>.\<close>

definition exIndex :: IndexFile where
  "exIndex = mkIndex [''x'' \<mapsto> [mkChart ''x'' ''1.0.0'' ''AAA'', mkChart ''x'' ''2.0.0'' ''BBB''],
                      ''e'' \<mapsto> []]"

text \<open>A receiver with one record, and indexes merged into it: one with a record whose
  version is the empty string beside an ordinary one, one with that record alone.\<close>

definition exReceiver :: IndexFile where
  "exReceiver = mkIndex [''x'' \<mapsto> [mkChart ''x'' ''1.0.0'' ''AAA'']]"

definition exOther :: IndexFile where
  "exOther = mkIndex [''x'' \<mapsto> [mkChart ''x'' '''' ''BBB'', mkChart ''x'' ''2.0.0'' ''CCC'']]"

definition exOtherEmptyVersion :: IndexFile where
  "exOtherEmptyVersion = mkIndex [''x'' \<mapsto> [mkChart ''x'' '''' ''BBB'']]"

definition exOtherSameVersion :: IndexFile where
  "exOtherSameVersion = mkIndex [''x'' \<mapsto> [mkChart ''x'' ''1.0.0'' ''BBB'']]"


text \<open>Entries of the deprecated format without a usable descriptor, a document in that
  format, and decoders that know three documents: a current index, the empty mapping
  and the deprecated document.\<close>

definition exEntry :: unversionedEntry where
  "exEntry = \<lparr>Checksum = ''sha'', URL = ''http://example.com/foo-1.2.3.tgz'', Chartfile = None\<rparr>"

definition exEntryNoName :: unversionedEntry where
  "exEntryNoName = \<lparr>Checksum = ''sha'', URL = ''http://example.com/foo.tgz'',
                     Chartfile = Some \<lparr>Name = '''', Version = ''9.9.9''\<rparr>\<rparr>"

text \<open>An entry that carries its descriptor.\<close>

definition exEntryDescribed :: unversionedEntry where
  "exEntryDescribed = \<lparr>Checksum = ''sha'', URL = ''http://example.com/foo-1.2.3-beta.tgz'',
                        Chartfile = Some \<lparr>Name = ''foo'', Version = ''1.2.3-beta''\<rparr>\<rparr>"

definition exLegacyDoc :: string where
  "exLegacyDoc = ''foo-1.2.3: {url: http://example.com/foo-1.2.3.tgz, checksum: sha}''"

definition exYaml :: "string \<Rightarrow> string + IndexFile" where
  "exYaml data =
     (if data = ''apiVersion: v1'' then Inr (mkIndex Map.empty)
      else if data = ''{}'' then Inr ((mkIndex Map.empty)\<lparr>APIVersion := ''''\<rparr>)
      else if data = exLegacyDoc then Inr ((mkIndex Map.empty)\<lparr>APIVersion := ''''\<rparr>)
      else Inl ''cannot unmarshal'')"

definition exJson :: "string \<Rightarrow> string + (string \<times> unversionedEntry) list" where
  "exJson js =
     (if js = ''{}'' then Inr []
      else if js = exLegacyDoc then Inr [(''foo-1.2.3'', exEntry)]
      else Inl ''cannot unmarshal'')"

definition exLib :: lib where
  "exLib = \<lparr>clock = (\<lambda>n. n), urlParse = (\<lambda>s. Inl ''no url''), urlString = Path,
             pathJoin = concat, filepathSplit = (\<lambda>s. ('''', s)), filepathJoin = concat,
             yamlUnmarshal = exYaml, yamlToJSON = (\<lambda>s. Inr s), jsonUnmarshal = exJson\<rparr>"

text \<open>A provider that has cached two repositories, one at a base URL that extends the
  other's, and whose service knows no repository.\<close>

definition mkRepo :: "string \<Rightarrow> string \<Rightarrow> IChartRepo" where
  "mkRepo n u = \<lparr>GetName = n, GetURL = u, GetCredentialName = '''', GetType = GCSRepoType\<rparr>"

definition exProvider :: repoProvider where
  "exProvider =
     \<lparr>rs_Get = (\<lambda>n. Inl (ErrCollaborator ''not found'')),
      rs_GetByURL = (\<lambda>u. Inl (ErrCollaborator ''not found'')),
      gcsrp_GetGCSRepo = (\<lambda>r. Inr r),
      repos = [''charts'' \<mapsto> mkRepo ''charts'' ''https://store.example.com/charts'',
               ''root'' \<mapsto> mkRepo ''root'' ''https://store.example.com'']\<rparr>"

text \<open>An index whose list mixes version strings that parse with one that does not.\<close>

definition exMixed :: IndexFile where
  "exMixed = mkIndex [''x'' \<mapsto> [mkChart ''x'' ''bad'' ''D1'', mkChart ''x'' ''1.0.0'' ''D2'',
                                  mkChart ''x'' ''2.0.0-rc1'' ''D3'', mkChart ''x'' ''2.0.0'' ''D4'']]"

section \<open>Properties of lookup\<close>

lemma Get_loop_None: "Get_loop vs version = None \<longleftrightarrow> (\<forall>ver \<in> set vs. Version ver \<noteq> version)"
  by (induction vs) auto

lemma Get_loop_Some: "Get_loop vs version = Some ver \<Longrightarrow> ver \<in> set vs \<and> Version ver = version"
  by (induction vs) (auto split: if_splits)

lemma Get_loop_append:
  "Get_loop vs version = Some ver \<Longrightarrow> Get_loop (vs @ ws) version = Some ver"
  by (induction vs) (auto split: if_splits)

text \<open>
  Claim C3. \<open>Get(name, version)\<close> fails with \<open>ErrNoChartName\<close> when the name is
  absent and with \<open>ErrNoChartVersion\<close> when the name maps to a list of length zero;
  on a list that is not empty it returns the element at index 0 when the version is
  the empty string (the list is read as it stands, nothing is sorted), and fails with
  the version-not-found error when the version is not empty and no record of the list
  has exactly that version string.
\<close>

theorem Get_cases:
  "(Entries i name = None \<longrightarrow> Get i name version = Inl ErrNoChartName) \<and>
   (Entries i name = Some [] \<longrightarrow> Get i name version = Inl ErrNoChartVersion) \<and>
   (\<forall>vs. Entries i name = Some vs \<and> vs \<noteq> [] \<longrightarrow> Get i name '''' = Inr (vs ! 0)) \<and>
   (\<forall>vs. Entries i name = Some vs \<and> vs \<noteq> [] \<and> version \<noteq> '''' \<and>
         (\<forall>ver \<in> set vs. Version ver \<noteq> version) \<longrightarrow>
         Get i name version = Inl (ErrVersionNotFound name version))"
proof -
  have absent: "Entries i name = None \<longrightarrow> Get i name version = Inl ErrNoChartName"
    by (simp add: Get_def)
  have empty: "Entries i name = Some [] \<longrightarrow> Get i name version = Inl ErrNoChartVersion"
    by (simp add: Get_def)
  have first: "\<forall>vs. Entries i name = Some vs \<and> vs \<noteq> [] \<longrightarrow> Get i name '''' = Inr (vs ! 0)"
    by (simp add: Get_def)
  have miss: "\<forall>vs. Entries i name = Some vs \<and> vs \<noteq> [] \<and> version \<noteq> '''' \<and>
         (\<forall>ver \<in> set vs. Version ver \<noteq> version) \<longrightarrow>
         Get i name version = Inl (ErrVersionNotFound name version)"
  proof (intro allI impI)
    fix vs
    assume h: "Entries i name = Some vs \<and> vs \<noteq> [] \<and> version \<noteq> '''' \<and>
         (\<forall>ver \<in> set vs. Version ver \<noteq> version)"
    then have "Get_loop vs version = None"
      by (simp add: Get_loop_None)
    with h show "Get i name version = Inl (ErrVersionNotFound name version)"
      by (simp add: Get_def)
  qed
  from absent empty first miss show ?thesis by blast
qed

theorem Get_cases_witness:
  "Get exIndex ''nope'' ''1.0.0'' = Inl ErrNoChartName \<and>
   Get exIndex ''e'' ''1.0.0'' = Inl ErrNoChartVersion \<and>
   Get exIndex ''x'' '''' = Inr (mkChart ''x'' ''1.0.0'' ''AAA'') \<and>
   Get exIndex ''x'' ''3.0.0'' = Inl (ErrVersionNotFound ''x'' ''3.0.0'')"
  using Get_cases [of exIndex "''nope''" "''1.0.0''"]
        Get_cases [of exIndex "''e''" "''1.0.0''"]
        Get_cases [of exIndex "''x''" "''3.0.0''"]
  by (simp add: exIndex_def mkIndex_def mkChart_def)

section \<open>Properties of merge\<close>

lemma Has_iff:
  "Has i n v \<longleftrightarrow>
     (\<exists>vs. Entries i n = Some vs \<and> vs \<noteq> [] \<and> (v = [] \<or> (\<exists>r \<in> set vs. Version r = v)))"
proof (cases "Entries i n")
  case None
  then show ?thesis by (simp add: Has_def Get_def)
next
  case (Some vs)
  show ?thesis
  proof (cases "Get_loop vs v")
    case None
    with Some show ?thesis
      using Get_loop_None [of vs v] by (auto simp: Has_def Get_def)
  next
    case (Some r)
    with \<open>Entries i n = Some vs\<close> show ?thesis
      using Get_loop_Some [of vs v r] by (auto simp: Has_def Get_def)
  qed
qed

lemma entriesAt_Some: "Entries i n = Some vs \<Longrightarrow> entriesAt i n = vs"
  by (simp add: entriesAt_def)

lemma Merge_record_Has: "Has i (Name cv) (Version cv) \<Longrightarrow> Merge_record i cv = i"
  by (simp add: Merge_record_def)

lemma Merge_record_Entries:
  "Entries (Merge_record i cv) n =
     (if n = Name cv \<and> \<not> Has i (Name cv) (Version cv)
      then Some (entriesAt i n @ [cv]) else Entries i n)"
  by (simp add: Merge_record_def)

lemma Merge_record_fields:
  "APIVersion (Merge_record i cv) = APIVersion i \<and>
   Generated (Merge_record i cv) = Generated i \<and>
   PublicKeys (Merge_record i cv) = PublicKeys i"
  by (simp add: Merge_record_def)

lemma Merge_record_grows:
  "Entries i n = Some vs \<Longrightarrow> \<exists>added. Entries (Merge_record i cv) n = Some (vs @ added) \<and> set added \<subseteq> {cv}"
  by (auto simp: Merge_record_Entries entriesAt_def)

lemma Get_grows:
  assumes "Get i n v = Inr r" and "Entries i n = Some vs" and "Entries i' n = Some (vs @ added)"
  shows "Get i' n v = Inr r"
proof -
  from assms(1,2) have ne: "vs \<noteq> []"
    by (auto simp: Get_def split: if_splits)
  show ?thesis
  proof (cases "v = []")
    case True
    with assms ne show ?thesis by (simp add: Get_def nth_append)
  next
    case False
    with assms(1,2) ne have "Get_loop vs v = Some r"
      by (auto simp: Get_def split: option.splits)
    then have "Get_loop (vs @ added) v = Some r" by (rule Get_loop_append)
    with assms(3) ne False show ?thesis by (simp add: Get_def)
  qed
qed

lemma Get_Inr_Some: "Get i n v = Inr r \<Longrightarrow> \<exists>vs. Entries i n = Some vs"
  by (auto simp: Get_def split: option.splits)

lemma Get_Merge_record: "Get i n v = Inr r \<Longrightarrow> Get (Merge_record i cv) n v = Inr r"
proof -
  assume g: "Get i n v = Inr r"
  then obtain vs where vs: "Entries i n = Some vs" using Get_Inr_Some by blast
  then obtain added where "Entries (Merge_record i cv) n = Some (vs @ added)"
    using Merge_record_grows by blast
  with g vs show ?thesis by (rule Get_grows)
qed

lemma Has_Get: "Has i n v \<longleftrightarrow> (\<exists>r. Get i n v = Inr r)"
  by (cases "Get i n v") (simp_all add: Has_def)

lemma Has_Merge_record: "Has i n v \<Longrightarrow> Has (Merge_record i cv) n v"
  using Get_Merge_record by (auto simp: Has_Get)

lemma Has_after_Merge_record: "Has (Merge_record i cv) (Name cv) (Version cv)"
proof (cases "Has i (Name cv) (Version cv)")
  case True
  then show ?thesis by (simp add: Merge_record_Has)
next
  case False
  then show ?thesis
    by (subst Has_iff) (auto simp: Merge_record_Entries)
qed

lemma Get_Merge_versions: "Get i n v = Inr r \<Longrightarrow> Get (Merge_versions i cvs) n v = Inr r"
  by (induction cvs arbitrary: i) (auto simp: Get_Merge_record)

lemma Has_Merge_versions: "Has i n v \<Longrightarrow> Has (Merge_versions i cvs) n v"
  using Get_Merge_versions by (auto simp: Has_Get)

lemma Has_after_Merge_versions:
  "cv \<in> set cvs \<Longrightarrow> Has (Merge_versions i cvs) (Name cv) (Version cv)"
proof (induction cvs arbitrary: i)
  case Nil
  then show ?case by simp
next
  case (Cons a cvs)
  show ?case
  proof (cases "cv = a")
    case True
    then show ?thesis
      using Has_after_Merge_record [of i a] Has_Merge_versions by simp
  next
    case False
    with Cons show ?thesis by simp
  qed
qed

lemma Merge_versions_fields:
  "APIVersion (Merge_versions i cvs) = APIVersion i \<and>
   Generated (Merge_versions i cvs) = Generated i \<and>
   PublicKeys (Merge_versions i cvs) = PublicKeys i"
  by (induction cvs arbitrary: i) (simp_all add: Merge_record_fields)

text \<open>What the inner loop adds under a name.\<close>

lemma Merge_versions_added:
  "\<exists>added. entriesAt (Merge_versions i cvs) n = entriesAt i n @ added \<and>
           (added = [] \<longrightarrow> Entries (Merge_versions i cvs) n = Entries i n) \<and>
           (\<forall>r \<in> set added. r \<in> set cvs \<and> Name r = n \<and> \<not> Has i n (Version r))"
proof (induction cvs arbitrary: i)
  case Nil
  then show ?case by simp
next
  case (Cons cv cvs)
  let ?j = "Merge_record i cv"
  obtain added where a:
    "entriesAt (Merge_versions ?j cvs) n = entriesAt ?j n @ added"
    "added = [] \<longrightarrow> Entries (Merge_versions ?j cvs) n = Entries ?j n"
    "\<forall>r \<in> set added. r \<in> set cvs \<and> Name r = n \<and> \<not> Has ?j n (Version r)"
    using Cons.IH [of ?j] by blast
  have mono: "\<forall>r \<in> set added. \<not> Has i n (Version r)"
    using a(3) Has_Merge_record by blast
  show ?case
  proof (cases "n = Name cv \<and> \<not> Has i (Name cv) (Version cv)")
    case True
    then have "entriesAt ?j n = entriesAt i n @ [cv]"
      by (simp add: entriesAt_def Merge_record_Entries)
    with a True mono show ?thesis
      by (intro exI [of _ "cv # added"]) auto
  next
    case False
    then have "Entries ?j n = Entries i n"
      by (auto simp: Merge_record_Entries)
    then have "entriesAt ?j n = entriesAt i n" by (simp add: entriesAt_def)
    with a mono \<open>Entries ?j n = Entries i n\<close> show ?thesis
      by (intro exI [of _ added]) auto
  qed
qed

lemma Get_Merge: "Get i n v = Inr r \<Longrightarrow> Get (Merge i f ks) n v = Inr r"
  by (induction ks arbitrary: i) (auto simp: Get_Merge_versions)

lemma Has_Merge: "Has i n v \<Longrightarrow> Has (Merge i f ks) n v"
  using Get_Merge by (auto simp: Has_Get)

lemma Merge_fields:
  "APIVersion (Merge i f ks) = APIVersion i \<and>
   Generated (Merge i f ks) = Generated i \<and>
   PublicKeys (Merge i f ks) = PublicKeys i"
  by (induction ks arbitrary: i) (simp_all add: Merge_versions_fields)

lemma Has_after_Merge:
  "k \<in> set ks \<Longrightarrow> cv \<in> set (entriesAt f k) \<Longrightarrow> Has (Merge i f ks) (Name cv) (Version cv)"
proof (induction ks arbitrary: i)
  case Nil
  then show ?case by simp
next
  case (Cons a ks)
  show ?case
  proof (cases "k = a")
    case True
    with Cons.prems have "Has (Merge_versions i (entriesAt f a)) (Name cv) (Version cv)"
      by (simp add: Has_after_Merge_versions)
    then show ?thesis by (simp add: Has_Merge)
  next
    case False
    with Cons show ?thesis by simp
  qed
qed

lemma Merge_added:
  "\<exists>added. entriesAt (Merge i f ks) n = entriesAt i n @ added \<and>
           (added = [] \<longrightarrow> Entries (Merge i f ks) n = Entries i n) \<and>
           (\<forall>r \<in> set added. (\<exists>k \<in> set ks. r \<in> set (entriesAt f k)) \<and> Name r = n \<and>
                              \<not> Has i n (Version r))"
proof (induction ks arbitrary: i)
  case Nil
  then show ?case by simp
next
  case (Cons k ks)
  let ?j = "Merge_versions i (entriesAt f k)"
  obtain a1 where a1:
    "entriesAt ?j n = entriesAt i n @ a1"
    "a1 = [] \<longrightarrow> Entries ?j n = Entries i n"
    "\<forall>r \<in> set a1. r \<in> set (entriesAt f k) \<and> Name r = n \<and> \<not> Has i n (Version r)"
    using Merge_versions_added [of i "entriesAt f k" n] by blast
  obtain a2 where a2:
    "entriesAt (Merge ?j f ks) n = entriesAt ?j n @ a2"
    "a2 = [] \<longrightarrow> Entries (Merge ?j f ks) n = Entries ?j n"
    "\<forall>r \<in> set a2. (\<exists>k \<in> set ks. r \<in> set (entriesAt f k)) \<and> Name r = n \<and>
                     \<not> Has ?j n (Version r)"
    using Cons.IH [of ?j] by blast
  have mono: "\<forall>r \<in> set a2. \<not> Has i n (Version r)"
    using a2(3) Has_Merge_versions by blast
  from a1 a2 mono show ?case
    by (intro exI [of _ "a1 @ a2"]) auto
qed

lemma Entries_Merge_Some:
  assumes "Entries i n = Some vs"
  shows "\<exists>added. Entries (Merge i f ks) n = Some (vs @ added) \<and>
           (\<forall>r \<in> set added. (\<exists>k \<in> set ks. r \<in> set (entriesAt f k)) \<and> Name r = n \<and>
                              \<not> Has i n (Version r))"
proof -
  obtain added where a:
    "entriesAt (Merge i f ks) n = entriesAt i n @ added"
    "added = [] \<longrightarrow> Entries (Merge i f ks) n = Entries i n"
    "\<forall>r \<in> set added. (\<exists>k \<in> set ks. r \<in> set (entriesAt f k)) \<and> Name r = n \<and>
                        \<not> Has i n (Version r)"
    using Merge_added [of i f ks n] by blast
  have "Entries (Merge i f ks) n = Some (vs @ added)"
  proof (cases "added = []")
    case True
    with a(2) assms show ?thesis by simp
  next
    case False
    with a(1) assms show ?thesis
      by (cases "Entries (Merge i f ks) n") (auto simp: entriesAt_def)
  qed
  with a(3) show ?thesis by blast
qed

text \<open>
  Claim C10. \<open>Has(name, "")\<close> is true whenever the name maps to a list that is not
  empty, whatever versions the list stores. So when the receiver holds at least one
  record under a name, \<open>Merge\<close> leaves the receiver's list for that name as a prefix
  of the new list, and no record it adds after it has the empty string as its version:
  a record of the other index with an empty version is never copied under a name the
  receiver already has records for. This holds for every order of the range.
\<close>

theorem Merge_never_copies_empty_version:
  assumes "Entries i n = Some vs" and "vs \<noteq> []"
  shows "Has i n '''' \<and>
         (\<exists>added. Entries (Merge i f ks) n = Some (vs @ added) \<and>
                   (\<forall>r \<in> set added. Version r \<noteq> ''''))"
proof -
  from assms have h: "Has i n ''''" by (simp add: Has_def Get_def)
  obtain added where a: "Entries (Merge i f ks) n = Some (vs @ added)"
    "\<forall>r \<in> set added. \<not> Has i n (Version r)"
    using Entries_Merge_Some [OF assms(1), of f ks] by blast
  from a(2) h have "\<forall>r \<in> set added. Version r \<noteq> ''''" by metis
  with h a(1) show ?thesis by blast
qed

text \<open>The receiver holds \<open>x 1.0.0\<close>; the other index holds \<open>x\<close> with the empty
  version and \<open>x 2.0.0\<close>: only the second is copied.\<close>

lemma Has_exReceiver: "Has exReceiver ''x'' '''' \<and> \<not> Has exReceiver ''x'' ''2.0.0''"
  by (simp add: Has_def Get_def exReceiver_def mkIndex_def mkChart_def)

lemma Merge_example:
  "Entries (Merge exReceiver exOther [''x'']) ''x'' =
     Some [mkChart ''x'' ''1.0.0'' ''AAA'', mkChart ''x'' ''2.0.0'' ''CCC'']"
  by (simp add: Merge_record_def Has_def Get_def entriesAt_def
      exReceiver_def exOther_def mkIndex_def mkChart_def)

theorem Merge_never_copies_empty_version_witness:
  "Has exReceiver ''x'' '''' \<and>
   (\<exists>added. Entries (Merge exReceiver exOther [''x'']) ''x'' =
               Some ([mkChart ''x'' ''1.0.0'' ''AAA''] @ added) \<and>
             (\<forall>r \<in> set added. Version r \<noteq> ''''))"
proof -
  have e: "Entries exReceiver ''x'' = Some [mkChart ''x'' ''1.0.0'' ''AAA'']"
    by (simp add: exReceiver_def mkIndex_def)
  have ne: "[mkChart ''x'' ''1.0.0'' ''AAA''] \<noteq> []" by simp
  show ?thesis
    using Merge_never_copies_empty_version [OF e ne, of exOther "[''x'']"] .
qed

text \<open>
  Claim C1. The claim says that every (name, version) pair of the other index that is
  absent from the receiver is appended. The code decides absence with \<open>Has\<close>, which
  answers true for the empty version as soon as the name has a record. At the input
  below the other index holds the pair (\<open>x\<close>, empty version), the receiver holds no
  record of \<open>x\<close> with the empty version, and \<open>Merge\<close> returns the receiver unchanged:
  the record is not appended.
\<close>

theorem Merge_drops_record_with_empty_version:
  "mkChart ''x'' '''' ''BBB'' \<in> set (entriesAt exOtherEmptyVersion ''x'') \<and>
   Get_loop (entriesAt exReceiver ''x'') '''' = None \<and>
   Merge exReceiver exOtherEmptyVersion [''x''] = exReceiver"
  by (simp add: Merge_record_def Has_def Get_def entriesAt_def
      exReceiver_def exOtherEmptyVersion_def mkIndex_def mkChart_def)

text \<open>The part of the claim that holds is \<open>Get_Merge\<close> (a lookup that succeeds on the
  receiver gives the same record after the merge: the receiver wins) together with
  \<open>Has_after_Merge\<close> (after the merge every record of the other index is found by
  \<open>Has\<close>) and \<open>Entries_Merge_Some\<close> (the receiver's list is a prefix of the new
  one). The example of the specification, with digests \<open>AAA\<close> and \<open>BBB\<close>:\<close>

lemma Merge_receiver_wins_example:
  "Get (Merge exReceiver exOtherSameVersion [''x'']) ''x'' ''1.0.0'' =
     Inr (mkChart ''x'' ''1.0.0'' ''AAA'')"
proof -
  have "Get exReceiver ''x'' ''1.0.0'' = Inr (mkChart ''x'' ''1.0.0'' ''AAA'')"
    by (simp add: Get_def exReceiver_def mkIndex_def mkChart_def)
  then show ?thesis by (rule Get_Merge)
qed

subsection \<open>Merging an index into itself\<close>











section \<open>Properties of loading\<close>

lemma Split_not_Nil: "Split s sep \<noteq> []"
  by (induction s) (auto split: list.splits)

lemma Split_first: "Split s sep ! 0 = takeWhile (\<lambda>c. c \<noteq> sep) s"
proof (induction s)
  case Nil
  show ?case by simp
next
  case (Cons c s)
  then show ?case
    using Split_not_Nil [of s sep] by (cases "Split s sep") auto
qed

lemma Split_length: "Suc 0 < length (Split s sep) \<longleftrightarrow> sep \<in> set s"
proof (induction s)
  case Nil
  show ?case by simp
next
  case (Cons c s)
  then show ?case
    using Split_not_Nil [of s sep] by (cases "Split s sep") auto
qed

lemma Split_second:
  "sep \<in> set s \<Longrightarrow>
     Split s sep ! Suc 0 = takeWhile (\<lambda>c. c \<noteq> sep) (tl (dropWhile (\<lambda>c. c \<noteq> sep) s))"
proof (induction s)
  case Nil
  then show ?case by simp
next
  case (Cons c s)
  show ?case
  proof (cases "c = sep")
    case True
    then show ?thesis using Split_first [of s sep] by simp
  next
    case False
    with Cons.prems have "sep \<in> set s" by simp
    with Cons.IH False show ?thesis
      using Split_not_Nil [of s sep] by (cases "Split s sep") auto
  qed
qed

lemma keyMetadata_eq:
  "Name (keyMetadata n) = takeWhile (\<lambda>c. c \<noteq> CHR ''-'') n \<and>
   Version (keyMetadata n) =
     (if CHR ''-'' \<in> set n
      then TrimSuffix (takeWhile (\<lambda>c. c \<noteq> CHR ''-'')
                         (tl (dropWhile (\<lambda>c. c \<noteq> CHR ''-'') n))) ''.tgz''
      else '''')"
  by (simp add: keyMetadata_def Let_def Split_first Split_length Split_second)

lemma count_one_rest:
  "count_list s sep = 1 \<Longrightarrow> sep \<notin> set (tl (dropWhile (\<lambda>c. c \<noteq> sep) s))"
proof (induction s)
  case Nil
  then show ?case by simp
next
  case (Cons c s)
  show ?case
  proof (cases "c = sep")
    case True
    with Cons.prems have "count_list s sep = 0" by simp
    then have "sep \<notin> set s" by (simp add: count_list_0_iff)
    with True show ?thesis by simp
  next
    case False
    with Cons.prems have "count_list s sep = 1" by simp
    with Cons.IH False show ?thesis by simp
  qed
qed

lemma count_one_mem: "count_list s sep = 1 \<Longrightarrow> sep \<in> set s"
  using count_list_0_iff [of s sep] by auto

lemma keyMetadata_one_dash:
  assumes "count_list n (CHR ''-'') = 1"
  shows "Version (keyMetadata n) = spec_key_version n"
proof -
  let ?rest = "tl (dropWhile (\<lambda>c. c \<noteq> CHR ''-'') n)"
  have mem: "CHR ''-'' \<in> set n" using assms by (rule count_one_mem)
  have "CHR ''-'' \<notin> set ?rest" using assms by (rule count_one_rest)
  then have "\<forall>c \<in> set ?rest. c \<noteq> CHR ''-''" by blast
  then have whole: "takeWhile (\<lambda>c. c \<noteq> CHR ''-'') ?rest = ?rest"
    by (rule takeWhile_eq_all_conv [THEN iffD2])
  have "Version (keyMetadata n) = TrimSuffix (takeWhile (\<lambda>c. c \<noteq> CHR ''-'') ?rest) ''.tgz''"
    using mem by (simp add: keyMetadata_eq)
  also have "\<dots> = TrimSuffix ?rest ''.tgz''" by (simp only: whole)
  also have "\<dots> = spec_key_version n" using mem by (simp add: spec_key_version_def)
  finally show ?thesis .
qed

text \<open>Where the entry has no descriptor, or one with an empty name, the name is the
  portion of the key before its first \<open>-\<close>; and for a key with at most one
  \<open>-\<close> the version is the one the specification's words give: all that follows
  the \<open>-\<close>, without a trailing \<open>.tgz\<close>, or the empty string when there is no
  \<open>-\<close>.\<close>

lemma legacy_key_name:
  assumes "Chartfile item = None \<or> (\<exists>md. Chartfile item = Some md \<and> Name md = '''')"
  shows "Name (legacyChartfile n item) = takeWhile (\<lambda>c. c \<noteq> CHR ''-'') n"
proof -
  from assms have "legacyChartfile n item = keyMetadata n"
    by (auto simp: legacyChartfile_def)
  then show ?thesis by (simp add: keyMetadata_eq)
qed

lemma legacy_key_version_at_most_one_dash:
  assumes "Chartfile item = None \<or> (\<exists>md. Chartfile item = Some md \<and> Name md = '''')"
    and "count_list n (CHR ''-'') \<le> 1"
  shows "Version (legacyChartfile n item) = spec_key_version n"
proof -
  from assms(1) have k: "legacyChartfile n item = keyMetadata n"
    by (auto simp: legacyChartfile_def)
  show ?thesis
  proof (cases "count_list n (CHR ''-'') = 1")
    case True
    then show ?thesis unfolding k by (rule keyMetadata_one_dash)
  next
    case False
    with assms(2) have "count_list n (CHR ''-'') = 0" by simp
    then have "CHR ''-'' \<notin> set n" by (simp add: count_list_0_iff)
    then show ?thesis unfolding k by (simp add: keyMetadata_eq spec_key_version_def)
  qed
qed

lemma legacy_key_examples:
  "Name (legacyChartfile ''foo-1.2.3'' exEntry) = ''foo'' \<and>
   Version (legacyChartfile ''foo-1.2.3'' exEntry) = ''1.2.3'' \<and>
   Version (legacyChartfile ''foo-1.2.3.tgz'' exEntry) = ''1.2.3'' \<and>
   Name (legacyChartfile ''foo'' exEntryNoName) = ''foo'' \<and>
   Version (legacyChartfile ''foo'' exEntryNoName) = ''''"
  by (simp add: legacyChartfile_def keyMetadata_def exEntry_def exEntryNoName_def
      TrimSuffix_def HasSuffix_def)

text \<open>
  Claim C4. The claim takes as version the entire portion of the key after its first
  \<open>-\<close>, without a trailing archive extension. The loader splits the key on every
  \<open>-\<close> and reads \<open>parts[1]\<close> alone, although it strips \<open>.tgz\<close> from it as
  from the tail of a key \<open>name-version.tgz\<close>. At the key \<open>foo-1.2.3-beta.tgz\<close>
  of an entry without a descriptor the claim gives the version \<open>1.2.3-beta\<close> and
  the loader gives \<open>1.2.3\<close>: what follows the second \<open>-\<close> is never read. An
  entry with the same key that carries its descriptor keeps \<open>1.2.3-beta\<close>.
\<close>

theorem legacy_key_version_not_whole_rest:
  "Chartfile exEntry = None \<and>
   Name (legacyChartfile ''foo-1.2.3-beta.tgz'' exEntry) = ''foo'' \<and>
   Version (legacyChartfile ''foo-1.2.3-beta.tgz'' exEntry) = ''1.2.3'' \<and>
   spec_key_version ''foo-1.2.3-beta.tgz'' = ''1.2.3-beta'' \<and>
   Version (legacyChartfile ''foo-1.2.3-beta.tgz'' exEntryDescribed) = ''1.2.3-beta''"
  by (simp add: legacyChartfile_def keyMetadata_def spec_key_version_def exEntry_def
      exEntryDescribed_def TrimSuffix_def HasSuffix_def)

text \<open>The whole loader on the document with the one key \<open>foo-1.2.3\<close>: the index
  holds the record under \<open>foo\<close>, with the stored URL as its location.\<close>

lemma loadUnversionedIndex_example:
  "\<exists>ni. loadUnversionedIndex exLib exLegacyDoc = Inr ni \<and>
        Entries ni ''foo'' =
          Some [\<lparr>Name = ''foo'', Version = ''1.2.3'', URLs = [''http://example.com/foo-1.2.3.tgz''],
                 Created = 1, Removed = False, Digest = ''sha''\<rparr>]"
  by (simp add: loadUnversionedIndex_def exLib_def exJson_def exLegacyDoc_def Add_def
      legacyChartfile_def keyMetadata_def exEntry_def NewIndexFile_def
      TrimSuffix_def HasSuffix_def)

text \<open>
  Claim C6. \<open>LoadIndex\<close> returns the decoded index as it is when its
  \<open>apiVersion\<close> is not empty; when it is empty the result is that of the loader of
  the deprecated format; and \<open>LoadIndex\<close> fails with \<open>ErrNoAPIVersion\<close> exactly
  when the document decodes with an empty \<open>apiVersion\<close> and the mapping of the
  deprecated format decodes to zero entries.
\<close>

theorem LoadIndex_cases:
  "(\<forall>i. yamlUnmarshal l data = Inr i \<and> APIVersion i \<noteq> '''' \<longrightarrow> LoadIndex l data = Inr i) \<and>
   (\<forall>i. yamlUnmarshal l data = Inr i \<and> APIVersion i = '''' \<longrightarrow>
        LoadIndex l data = loadUnversionedIndex l data) \<and>
   (LoadIndex l data = Inl ErrNoAPIVersion \<longleftrightarrow>
      (\<exists>i js. yamlUnmarshal l data = Inr i \<and> APIVersion i = '''' \<and>
              yamlToJSON l data = Inr js \<and> jsonUnmarshal l js = Inr []))"
proof -
  have current: "\<forall>i. yamlUnmarshal l data = Inr i \<and> APIVersion i \<noteq> '''' \<longrightarrow>
                   LoadIndex l data = Inr i"
    by (simp add: LoadIndex_def)
  have legacy: "\<forall>i. yamlUnmarshal l data = Inr i \<and> APIVersion i = '''' \<longrightarrow>
                  LoadIndex l data = loadUnversionedIndex l data"
    by (simp add: LoadIndex_def)
  have unv: "loadUnversionedIndex l data = Inl ErrNoAPIVersion \<longleftrightarrow>
               (\<exists>js. yamlToJSON l data = Inr js \<and> jsonUnmarshal l js = Inr [])"
    by (auto simp: loadUnversionedIndex_def split: sum.splits if_splits)
  have none: "LoadIndex l data = Inl ErrNoAPIVersion \<longleftrightarrow>
      (\<exists>i js. yamlUnmarshal l data = Inr i \<and> APIVersion i = '''' \<and>
              yamlToJSON l data = Inr js \<and> jsonUnmarshal l js = Inr [])"
  proof (cases "yamlUnmarshal l data")
    case (Inl err)
    then show ?thesis by (simp add: LoadIndex_def)
  next
    case (Inr i)
    then show ?thesis using unv by (cases "APIVersion i = ''''") (auto simp: LoadIndex_def)
  qed
  from current legacy none show ?thesis by blast
qed

theorem LoadIndex_cases_witness:
  "LoadIndex exLib ''apiVersion: v1'' = Inr (mkIndex Map.empty) \<and>
   LoadIndex exLib ''{}'' = Inl ErrNoAPIVersion \<and>
   LoadIndex exLib exLegacyDoc = loadUnversionedIndex exLib exLegacyDoc \<and>
   LoadIndex exLib exLegacyDoc \<noteq> Inl ErrNoAPIVersion"
proof -
  let ?old = "(mkIndex Map.empty)\<lparr>APIVersion := ''''\<rparr>"
  have y1: "yamlUnmarshal exLib ''apiVersion: v1'' = Inr (mkIndex Map.empty) \<and>
            APIVersion (mkIndex Map.empty) \<noteq> ''''"
    by (simp add: exLib_def exYaml_def mkIndex_def)
  have y2: "yamlUnmarshal exLib ''{}'' = Inr ?old \<and> APIVersion ?old = '''' \<and>
            yamlToJSON exLib ''{}'' = Inr ''{}'' \<and> jsonUnmarshal exLib ''{}'' = Inr []"
    by (simp add: exLib_def exYaml_def exJson_def)
  have y3: "yamlUnmarshal exLib exLegacyDoc = Inr ?old \<and> APIVersion ?old = ''''"
    by (simp add: exLib_def exYaml_def exLegacyDoc_def)
  have j3: "yamlToJSON exLib exLegacyDoc = Inr exLegacyDoc \<and>
            jsonUnmarshal exLib exLegacyDoc = Inr [(''foo-1.2.3'', exEntry)]"
    by (simp add: exLib_def exJson_def exLegacyDoc_def)
  have c1: "LoadIndex exLib ''apiVersion: v1'' = Inr (mkIndex Map.empty)"
    using LoadIndex_cases [of exLib "''apiVersion: v1''"] y1 by blast
  have c2: "LoadIndex exLib ''{}'' = Inl ErrNoAPIVersion"
    using LoadIndex_cases [of exLib "''{}''"] y2 by blast
  have c3: "LoadIndex exLib exLegacyDoc = loadUnversionedIndex exLib exLegacyDoc"
    using LoadIndex_cases [of exLib exLegacyDoc] y3 by blast
  have c4: "LoadIndex exLib exLegacyDoc \<noteq> Inl ErrNoAPIVersion"
  proof
    assume "LoadIndex exLib exLegacyDoc = Inl ErrNoAPIVersion"
    then have "\<exists>i js. yamlUnmarshal exLib exLegacyDoc = Inr i \<and> APIVersion i = '''' \<and>
              yamlToJSON exLib exLegacyDoc = Inr js \<and> jsonUnmarshal exLib js = Inr []"
      using LoadIndex_cases [of exLib exLegacyDoc] by blast
    with j3 show False by auto
  qed
  from c1 c2 c3 c4 show ?thesis by blast
qed

section \<open>Properties of the repository provider\<close>

text \<open>One visit of the range, as an update of \<open>found\<close>.\<close>

lemma findRepoByURL_loop_Cons:
  "findRepoByURL_loop rp URL' found (k # ks) =
     findRepoByURL_loop rp URL'
       (case repos rp k of
          None \<Rightarrow> found
        | Some r \<Rightarrow>
            if HasPrefix URL' (GetURL r) \<and>
               (case found of None \<Rightarrow> True | Some f \<Rightarrow> length (GetURL f) < length (GetURL r))
            then Some r else found) ks"
  by (simp add: Let_def split: option.splits)

lemma findRepoByURL_loop_None:
  "findRepoByURL_loop rp URL' found ks = None \<Longrightarrow>
     found = None \<and> (\<forall>k \<in> set ks. \<forall>r. repos rp k = Some r \<longrightarrow> \<not> HasPrefix URL' (GetURL r))"
proof (induction ks arbitrary: found)
  case Nil
  then show ?case by simp
next
  case (Cons k ks)
  let ?next = "case repos rp k of
          None \<Rightarrow> found
        | Some r \<Rightarrow>
            if HasPrefix URL' (GetURL r) \<and>
               (case found of None \<Rightarrow> True | Some f \<Rightarrow> length (GetURL f) < length (GetURL r))
            then Some r else found"
  from Cons.prems have "findRepoByURL_loop rp URL' ?next ks = None"
    by (simp only: findRepoByURL_loop_Cons)
  from Cons.IH [OF this] have n: "?next = None"
    and rest: "\<forall>k \<in> set ks. \<forall>r. repos rp k = Some r \<longrightarrow> \<not> HasPrefix URL' (GetURL r)"
    by blast+
  from n have f: "found = None"
    by (cases "repos rp k") (auto split: if_splits)
  from n f have "\<forall>r. repos rp k = Some r \<longrightarrow> \<not> HasPrefix URL' (GetURL r)"
    by (cases "repos rp k") (auto split: if_splits)
  with f rest show ?case by simp
qed

lemma findRepoByURL_loop_Some:
  "findRepoByURL_loop rp URL' found ks = Some r \<Longrightarrow>
     (found = Some r \<or> ((\<exists>k \<in> set ks. repos rp k = Some r) \<and> HasPrefix URL' (GetURL r))) \<and>
     (\<forall>f. found = Some f \<longrightarrow> length (GetURL f) \<le> length (GetURL r)) \<and>
     (\<forall>k \<in> set ks. \<forall>c. repos rp k = Some c \<and> HasPrefix URL' (GetURL c) \<longrightarrow>
         length (GetURL c) \<le> length (GetURL r))"
proof (induction ks arbitrary: found)
  case Nil
  then show ?case by simp
next
  case (Cons k ks)
  let ?next = "case repos rp k of
          None \<Rightarrow> found
        | Some r \<Rightarrow>
            if HasPrefix URL' (GetURL r) \<and>
               (case found of None \<Rightarrow> True | Some f \<Rightarrow> length (GetURL f) < length (GetURL r))
            then Some r else found"
  from Cons.prems have "findRepoByURL_loop rp URL' ?next ks = Some r"
    by (simp only: findRepoByURL_loop_Cons)
  from Cons.IH [OF this] have
    src: "?next = Some r \<or> ((\<exists>k \<in> set ks. repos rp k = Some r) \<and> HasPrefix URL' (GetURL r))"
    and ge: "\<forall>f. ?next = Some f \<longrightarrow> length (GetURL f) \<le> length (GetURL r)"
    and rest: "\<forall>k \<in> set ks. \<forall>c. repos rp k = Some c \<and> HasPrefix URL' (GetURL c) \<longrightarrow>
         length (GetURL c) \<le> length (GetURL r)"
    by blast+
  have next_cases: "?next = found \<or> (\<exists>c. repos rp k = Some c \<and> HasPrefix URL' (GetURL c) \<and> ?next = Some c)"
    by (cases "repos rp k") auto
  have p1: "found = Some r \<or> ((\<exists>k' \<in> set (k # ks). repos rp k' = Some r) \<and> HasPrefix URL' (GetURL r))"
    using src next_cases by auto
  have p2: "\<forall>f. found = Some f \<longrightarrow> length (GetURL f) \<le> length (GetURL r)"
  proof (intro allI impI)
    fix f assume f: "found = Some f"
    show "length (GetURL f) \<le> length (GetURL r)"
    proof (cases "?next = found")
      case True
      with ge f show ?thesis by simp
    next
      case False
      then obtain c where c: "repos rp k = Some c" "?next = Some c"
        using next_cases by blast
      with False f have "length (GetURL f) < length (GetURL c)"
        by (auto split: if_splits)
      moreover from ge c have "length (GetURL c) \<le> length (GetURL r)" by simp
      ultimately show ?thesis by simp
    qed
  qed
  have p3: "\<forall>c. repos rp k = Some c \<and> HasPrefix URL' (GetURL c) \<longrightarrow>
              length (GetURL c) \<le> length (GetURL r)"
  proof (intro allI impI)
    fix c assume c: "repos rp k = Some c \<and> HasPrefix URL' (GetURL c)"
    show "length (GetURL c) \<le> length (GetURL r)"
    proof (cases "?next = Some c")
      case True
      with ge show ?thesis by simp
    next
      case False
      with c obtain f where f: "found = Some f" "\<not> length (GetURL f) < length (GetURL c)"
        by (cases found) (auto split: if_splits)
      with c have "?next = Some f" by simp
      with ge have "length (GetURL f) \<le> length (GetURL r)" by simp
      with f show ?thesis by simp
    qed
  qed
  from p1 p2 p3 rest show ?case by simp
qed

lemma HasPrefix_same_length:
  "HasPrefix s p \<Longrightarrow> HasPrefix s q \<Longrightarrow> length p = length q \<Longrightarrow> p = q"
  by (auto simp: HasPrefix_def)

text \<open>
  Claim C7. Whatever the state of the provider, the URL and the order in which the
  range visits the cached repositories: when the base URL of some cached repository
  is a prefix of the URL, \<open>GetRepoByURL\<close> returns a cached repository whose base URL
  is a prefix of the URL and is at least as long as that of every cached repository
  whose base URL is a prefix too, and it leaves the provider as it was. The longest
  matching base URL is one string: a cached repository that matches with the same
  length has the same base URL.
\<close>

theorem GetRepoByURL_longest_prefix:
  assumes "range_order (repos rp) ks"
    and "\<exists>c \<in> ran (repos rp). HasPrefix URL' (GetURL c)"
  shows "\<exists>r. GetRepoByURL rp ks URL' = (Inr r, rp) \<and>
             r \<in> ran (repos rp) \<and> HasPrefix URL' (GetURL r) \<and>
             (\<forall>c \<in> ran (repos rp). HasPrefix URL' (GetURL c) \<longrightarrow>
                 length (GetURL c) \<le> length (GetURL r) \<and>
                 (length (GetURL c) = length (GetURL r) \<longrightarrow> GetURL c = GetURL r))"
proof -
  have keys: "set ks = dom (repos rp)" using assms(1) by (simp add: range_order_def)
  obtain c k where c: "repos rp k = Some c" "HasPrefix URL' (GetURL c)"
    using assms(2) by (auto simp: ran_def)
  then have k: "k \<in> set ks" using keys by auto
  have "findRepoByURL_loop rp URL' None ks \<noteq> None"
    using findRepoByURL_loop_None [of rp URL' None ks] c k by auto
  then obtain r where r: "findRepoByURL_loop rp URL' None ks = Some r" by auto
  note s = findRepoByURL_loop_Some [OF r]
  have in_ran: "r \<in> ran (repos rp)" using s by (auto simp: ran_def)
  have pre: "HasPrefix URL' (GetURL r)" using s by auto
  have longest: "\<forall>c \<in> ran (repos rp). HasPrefix URL' (GetURL c) \<longrightarrow>
                   length (GetURL c) \<le> length (GetURL r)"
  proof (intro ballI impI)
    fix c' assume c': "c' \<in> ran (repos rp)" "HasPrefix URL' (GetURL c')"
    then obtain k' where "repos rp k' = Some c'" by (auto simp: ran_def)
    moreover then have "k' \<in> set ks" using keys by auto
    ultimately show "length (GetURL c') \<le> length (GetURL r)" using s c'(2) by blast
  qed
  have "GetRepoByURL rp ks URL' = (Inr r, rp)"
    using r by (simp add: GetRepoByURL_def findRepoByURL_def)
  with in_ran pre longest show ?thesis
    using HasPrefix_same_length by blast
qed

text \<open>The example of the specification, for both orders of the range.\<close>

lemma GetRepoByURL_example:
  "GetRepoByURL exProvider [''charts'', ''root''] ''https://store.example.com/charts/sub'' =
     (Inr (mkRepo ''charts'' ''https://store.example.com/charts''), exProvider) \<and>
   GetRepoByURL exProvider [''root'', ''charts''] ''https://store.example.com/charts/sub'' =
     (Inr (mkRepo ''charts'' ''https://store.example.com/charts''), exProvider)"
  by (simp add: GetRepoByURL_def findRepoByURL_def HasPrefix_def exProvider_def mkRepo_def)

theorem GetRepoByURL_longest_prefix_witness:
  "range_order (repos exProvider) [''root'', ''charts''] \<and>
   (\<exists>r. GetRepoByURL exProvider [''root'', ''charts''] ''https://store.example.com/charts/sub'' =
           (Inr r, exProvider) \<and>
        r \<in> ran (repos exProvider) \<and>
        HasPrefix ''https://store.example.com/charts/sub'' (GetURL r) \<and>
        GetURL r = ''https://store.example.com/charts'')"
proof -
  let ?URL = "''https://store.example.com/charts/sub''"
  have ro: "range_order (repos exProvider) [''root'', ''charts'']"
    by (auto simp: range_order_def exProvider_def)
  have "repos exProvider ''charts'' = Some (mkRepo ''charts'' ''https://store.example.com/charts'')"
    by (simp add: exProvider_def)
  then have inr: "mkRepo ''charts'' ''https://store.example.com/charts'' \<in> ran (repos exProvider)"
    by (auto simp: ran_def)
  have hp: "HasPrefix ?URL (GetURL (mkRepo ''charts'' ''https://store.example.com/charts''))"
    by (simp add: HasPrefix_def mkRepo_def)
  from inr hp have ex: "\<exists>c \<in> ran (repos exProvider). HasPrefix ?URL (GetURL c)" by blast
  obtain r where r: "GetRepoByURL exProvider [''root'', ''charts''] ?URL = (Inr r, exProvider)"
    "r \<in> ran (repos exProvider)" "HasPrefix ?URL (GetURL r)"
    "\<forall>c \<in> ran (repos exProvider). HasPrefix ?URL (GetURL c) \<longrightarrow>
         length (GetURL c) \<le> length (GetURL r) \<and>
         (length (GetURL c) = length (GetURL r) \<longrightarrow> GetURL c = GetURL r)"
    using GetRepoByURL_longest_prefix [OF ro ex] by blast
  have "r = mkRepo ''charts'' ''https://store.example.com/charts''"
    using r(1) GetRepoByURL_example by simp
  then have "GetURL r = ''https://store.example.com/charts''" by (simp add: mkRepo_def)
  with ro r show ?thesis by blast
qed

text \<open>
  Claim C8. \<open>createRepo\<close> under a name the map already holds fails with the
  already-exists error and returns the provider unchanged, so the entry is not
  replaced; under a name the map does not hold it stores the repository under that
  name and returns it.
\<close>

theorem createRepo_cases:
  "(\<forall>old. repos rp (GetName cr) = Some old \<longrightarrow>
        createRepo rp cr = (Inl (ErrRepoExists (GetName cr)), rp)) \<and>
   (repos rp (GetName cr) = None \<longrightarrow>
        createRepo rp cr = (Inr cr, rp\<lparr>repos := (repos rp)(GetName cr \<mapsto> cr)\<rparr>))"
  by (simp add: createRepo_def)

theorem createRepo_cases_witness:
  "createRepo exProvider (mkRepo ''root'' ''https://other.example.com'') =
     (Inl (ErrRepoExists ''root''), exProvider) \<and>
   repos (snd (createRepo exProvider (mkRepo ''root'' ''https://other.example.com''))) ''root'' =
     Some (mkRepo ''root'' ''https://store.example.com'') \<and>
   fst (createRepo exProvider (mkRepo ''new'' ''https://new.example.com'')) =
     Inr (mkRepo ''new'' ''https://new.example.com'') \<and>
   repos (snd (createRepo exProvider (mkRepo ''new'' ''https://new.example.com''))) ''new'' =
     Some (mkRepo ''new'' ''https://new.example.com'')"
proof -
  have a: "repos exProvider (GetName (mkRepo ''root'' ''https://other.example.com'')) =
             Some (mkRepo ''root'' ''https://store.example.com'')"
    by (simp add: exProvider_def mkRepo_def)
  have b: "repos exProvider (GetName (mkRepo ''new'' ''https://new.example.com'')) = None"
    by (simp add: exProvider_def mkRepo_def)
  have n1: "GetName (mkRepo ''root'' ''https://other.example.com'') = ''root''"
    by (simp add: mkRepo_def)
  have n2: "GetName (mkRepo ''new'' ''https://new.example.com'') = ''new''"
    by (simp add: mkRepo_def)
  from a have c1: "createRepo exProvider (mkRepo ''root'' ''https://other.example.com'') =
     (Inl (ErrRepoExists ''root''), exProvider)"
    using createRepo_cases [of exProvider "mkRepo ''root'' ''https://other.example.com''"] n1
    by simp
  from b have c2: "createRepo exProvider (mkRepo ''new'' ''https://new.example.com'') =
     (Inr (mkRepo ''new'' ''https://new.example.com''),
      exProvider\<lparr>repos := (repos exProvider)(''new'' \<mapsto> mkRepo ''new'' ''https://new.example.com'')\<rparr>)"
    using createRepo_cases [of exProvider "mkRepo ''new'' ''https://new.example.com''"] n2
    by simp
  from c1 c2 a n1 show ?thesis by simp
qed

section \<open>Properties of the version ordering\<close>

text \<open>The comparison of two versions is the comparison of their keys.\<close>

lemma compareSegment_less: "compareSegment a b < 0 \<longleftrightarrow> a < b"
  by (simp add: compareSegment_def)

lemma compareSegment_zero: "compareSegment a b = 0 \<longleftrightarrow> a = b"
  by (auto simp: compareSegment_def)

lemma identKey_eq_iff:
  "identKey s = identKey t \<longleftrightarrow> s = t \<or> (isNumber s \<and> isNumber t \<and> parseNat s = parseNat t)"
  by (auto simp: identKey_def)

lemma comparePrePart_zero: "comparePrePart s t = 0 \<longleftrightarrow> identKey s = identKey t"
  by (auto simp: comparePrePart_def identKey_eq_iff compareSegment_zero)

lemma comparePrePart_less: "comparePrePart s t < 0 \<longleftrightarrow> identKey s < identKey t"
  by (auto simp: comparePrePart_def identKey_def compareSegment_def)

lemma comparePreParts_zero:
  "comparePreParts ss ts = 0 \<longleftrightarrow> map identKey ss = map identKey ts"
  by (induction ss ts rule: comparePreParts.induct)
     (simp_all add: Let_def comparePrePart_zero)

lemma comparePreParts_less:
  "comparePreParts ss ts < 0 \<longleftrightarrow> map identKey ss < map identKey ts"
proof (induction ss ts rule: comparePreParts.induct)
  case (4 s ss t ts)
  show ?case
  proof (cases "comparePrePart s t = 0")
    case True
    then have "identKey s = identKey t" by (simp add: comparePrePart_zero)
    with True 4 show ?thesis by (simp add: Let_def)
  next
    case False
    then have ne: "identKey s \<noteq> identKey t" by (simp add: comparePrePart_zero)
    from False have "comparePreParts (s # ss) (t # ts) = comparePrePart s t"
      by (simp add: Let_def)
    with ne show ?thesis by (simp add: comparePrePart_less)
  qed
qed simp_all

lemma Compare_less: "Compare v w < 0 \<longleftrightarrow> semverKey v < semverKey w"
  by (auto simp: Compare_def semverKey_def Let_def compareSegment_zero compareSegment_less
      comparePrerelease_def comparePreParts_less)

lemma Compare_zero: "Compare v w = 0 \<longleftrightarrow> semverKey v = semverKey w"
  by (auto simp: Compare_def semverKey_def Let_def compareSegment_zero
      comparePrerelease_def comparePreParts_zero)

lemma LessThan_key: "LessThan v w \<longleftrightarrow> semverKey v < semverKey w"
  by (simp add: LessThan_def Compare_less)


lemma versionKey_None: "versionKey s = None \<longleftrightarrow> NewVersion s = None"
  by (simp add: versionKey_def)

lemma VersionOrdering_key:
  "VersionOrdering a b \<longleftrightarrow>
     versionKey a = None \<or> (versionKey b \<noteq> None \<and> versionKey a < versionKey b)"
  by (cases "NewVersion a"; cases "NewVersion b")
     (simp_all add: VersionOrdering_def versionKey_def LessThan_key)

lemma VersionOrdering_le: "VersionOrdering a b \<Longrightarrow> versionKey a \<le> versionKey b"
  by (auto simp: VersionOrdering_key)

lemma not_VersionOrdering_le: "\<not> VersionOrdering a b \<Longrightarrow> versionKey b \<le> versionKey a"
  by (cases "versionKey a"; cases "versionKey b") (auto simp: VersionOrdering_key)

text \<open>
  Claim C5, as amended. For two version strings that both parse,
  \<open>VersionOrdering(a, b)\<close> and \<open>VersionOrdering(b, a)\<close> are never both true, and
  \<open>VersionOrdering(a, b)\<close> is the negation of \<open>VersionOrdering(b, a)\<close> exactly
  when the two versions differ in precedence (\<open>Compare\<close> is not 0). For two
  versions of equal precedence, and so for \<open>a = b\<close>, both are false.
\<close>

theorem VersionOrdering_wellformed:
  assumes "NewVersion a = Some i" and "NewVersion b = Some j"
  shows "\<not> (VersionOrdering a b \<and> VersionOrdering b a) \<and>
         ((VersionOrdering a b = (\<not> VersionOrdering b a)) \<longleftrightarrow> Compare i j \<noteq> 0)"
proof -
  from assms have ab: "VersionOrdering a b \<longleftrightarrow> semverKey i < semverKey j"
    by (simp add: VersionOrdering_def LessThan_key)
  from assms have ba: "VersionOrdering b a \<longleftrightarrow> semverKey j < semverKey i"
    by (simp add: VersionOrdering_def LessThan_key)
  have ne: "Compare i j \<noteq> 0 \<longleftrightarrow> semverKey i \<noteq> semverKey j"
    by (simp add: Compare_zero)
  show ?thesis unfolding ab ba ne by auto
qed

text \<open>Version strings used in the examples.\<close>

lemma NewVersion_examples:
  "NewVersion ''1.0.0'' = Some \<lparr>major = 1, minor = 0, patch = 0, pre = '''', metadata = '''',
                                 original = ''1.0.0''\<rparr> \<and>
   NewVersion ''2.0.0-rc1'' = Some \<lparr>major = 2, minor = 0, patch = 0, pre = ''rc1'', metadata = '''',
                                 original = ''2.0.0-rc1''\<rparr> \<and>
   NewVersion ''v1.0'' = Some \<lparr>major = 1, minor = 0, patch = 0, pre = '''', metadata = '''',
                                 original = ''v1.0''\<rparr> \<and>
   NewVersion ''bad'' = None"
  by (simp add: NewVersion_def cutAt_def isNumber_def isDigit_def isIdentChar_def parseNat_def
      isIdentList_def)

theorem VersionOrdering_wellformed_witness:
  "VersionOrdering ''1.0.0'' ''2.0.0-rc1'' = (\<not> VersionOrdering ''2.0.0-rc1'' ''1.0.0'') \<and>
   \<not> VersionOrdering ''1.0.0'' ''v1.0'' \<and> \<not> VersionOrdering ''v1.0'' ''1.0.0''"
proof -
  let ?a = "\<lparr>major = 1, minor = 0, patch = 0, pre = '''', metadata = '''', original = ''1.0.0''\<rparr>"
  let ?b = "\<lparr>major = 2, minor = 0, patch = 0, pre = ''rc1'', metadata = '''',
             original = ''2.0.0-rc1''\<rparr>"
  let ?c = "\<lparr>major = 1, minor = 0, patch = 0, pre = '''', metadata = '''', original = ''v1.0''\<rparr>"
  have a: "NewVersion ''1.0.0'' = Some ?a" and b: "NewVersion ''2.0.0-rc1'' = Some ?b"
    and c: "NewVersion ''v1.0'' = Some ?c"
    using NewVersion_examples by simp_all
  have ab: "Compare ?a ?b \<noteq> 0" by (simp add: Compare_def compareSegment_def)
  have ac: "Compare ?a ?c = 0" by (simp add: Compare_def compareSegment_def)
  from VersionOrdering_wellformed [OF a b] ab
  have 1: "VersionOrdering ''1.0.0'' ''2.0.0-rc1'' = (\<not> VersionOrdering ''2.0.0-rc1'' ''1.0.0'')"
    by blast
  from VersionOrdering_wellformed [OF a c] ac
  have 2: "\<not> VersionOrdering ''1.0.0'' ''v1.0'' \<and> \<not> VersionOrdering ''v1.0'' ''1.0.0''"
    by blast
  from 1 2 show ?thesis by blast
qed

text \<open>The claim as stated fails where the two versions have the same precedence: a
  version is not less than itself, and build metadata does not count.\<close>

theorem VersionOrdering_not_negation:
  "NewVersion ''1.0.0'' \<noteq> None \<and> NewVersion ''1.0.0+b1'' \<noteq> None \<and>
   \<not> VersionOrdering ''1.0.0'' ''1.0.0'' \<and>
   VersionOrdering ''1.0.0'' ''1.0.0+b1'' \<noteq> (\<not> VersionOrdering ''1.0.0+b1'' ''1.0.0'')"
  by (simp add: VersionOrdering_def LessThan_def Compare_def compareSegment_def
      NewVersion_def cutAt_def isNumber_def isDigit_def isIdentChar_def parseNat_def
      isIdentList_def)

section \<open>Properties of the sort\<close>

text \<open>One run of the inner loop moves the element at \<open>length ps\<close> to the left past
  the elements the comparator puts it before, and stops at the first it does not.\<close>

lemma Swap_neighbours:
  "Swap (ps @ p # x # rest) (Suc (length ps)) (length ps) = ps @ x # p # rest"
  by (simp add: Swap_def list_update_append nth_append)

lemma insertionSort_inner_split:
  assumes el: "\<And>c i j. i < length c \<Longrightarrow> j < length c \<Longrightarrow> lt c i j = cmp (c ! i) (c ! j)"
  shows "\<exists>ps1 ps2. ps = ps1 @ ps2 \<and>
           insertionSort_inner lt (ps @ x # rest) (length ps) = ps1 @ x # ps2 @ rest \<and>
           (\<forall>p \<in> set ps2. cmp x p) \<and> (ps1 \<noteq> [] \<longrightarrow> \<not> cmp x (last ps1))"
proof (induction ps arbitrary: rest rule: rev_induct)
  case Nil
  show ?case by simp
next
  case (snoc p qs)
  let ?c = "qs @ p # x # rest"
  have lt: "lt ?c (Suc (length qs)) (length qs) = cmp x p"
    using el [of "Suc (length qs)" ?c "length qs"] by (simp add: nth_append)
  show ?case
  proof (cases "cmp x p")
    case True
    obtain ps1 ps2 where s: "qs = ps1 @ ps2"
      "insertionSort_inner lt (qs @ x # p # rest) (length qs) = ps1 @ x # ps2 @ p # rest"
      "\<forall>q \<in> set ps2. cmp x q" "ps1 \<noteq> [] \<longrightarrow> \<not> cmp x (last ps1)"
      using snoc.IH [of "p # rest"] by auto
    have "insertionSort_inner lt ((qs @ [p]) @ x # rest) (length (qs @ [p])) =
            insertionSort_inner lt (qs @ x # p # rest) (length qs)"
      using lt True by (simp add: Swap_neighbours)
    with s True show ?thesis
      by (intro exI [of _ ps1] exI [of _ "ps2 @ [p]"]) simp
  next
    case False
    have "insertionSort_inner lt ((qs @ [p]) @ x # rest) (length (qs @ [p])) =
            (qs @ [p]) @ x # rest"
      using lt False by simp
    with False show ?thesis
      by (intro exI [of _ "qs @ [p]"] exI [of _ "[]"]) simp
  qed
qed

text \<open>When the comparator agrees with a key (it moves an element only past keys that
  are not greater and stops only at keys that are not smaller) the inner loop extends
  a prefix that descends by the key.\<close>

lemma insertionSort_inner_sorted:
  assumes el: "\<And>c i j. i < length c \<Longrightarrow> j < length c \<Longrightarrow> lt c i j = cmp (c ! i) (c ! j)"
    and past: "\<And>x p. cmp x p \<Longrightarrow> key p \<le> key x"
    and stop: "\<And>x p. \<not> cmp x p \<Longrightarrow> key x \<le> key p"
    and k: "k < length c"
    and sorted: "sorted_wrt (\<lambda>a b. key b \<le> key a) (take k c)"
  shows "length (insertionSort_inner lt c k) = length c \<and>
         mset (insertionSort_inner lt c k) = mset c \<and>
         sorted_wrt (\<lambda>a b. (key b :: 'k :: linorder) \<le> key a) (take (Suc k) (insertionSort_inner lt c k))"
proof -
  let ?ps = "take k c" and ?x = "c ! k" and ?rest = "drop (Suc k) c"
  have c: "c = ?ps @ ?x # ?rest" using k by (rule id_take_nth_drop)
  have len: "length ?ps = k" using k by simp
  obtain ps1 ps2 where s: "?ps = ps1 @ ps2"
    "insertionSort_inner lt (?ps @ ?x # ?rest) (length ?ps) = ps1 @ ?x # ps2 @ ?rest"
    "\<forall>p \<in> set ps2. cmp ?x p" "ps1 \<noteq> [] \<longrightarrow> \<not> cmp ?x (last ps1)"
    using insertionSort_inner_split [of lt cmp ?ps ?x ?rest, OF el] by blast
  have res: "insertionSort_inner lt c k = ps1 @ ?x # ps2 @ ?rest"
    using s(2) c len by simp
  have l12: "length ps1 + length ps2 = k"
    using s(1) len by (metis length_append)
  have e: "Suc k - length ps1 = Suc (length ps2)" using l12 by arith
  have tk: "take (Suc k) (ps1 @ ?x # ps2 @ ?rest) = ps1 @ ?x # ps2"
    using l12 by (simp add: e)
  have s12: "sorted_wrt (\<lambda>a b. key b \<le> key a) (ps1 @ ps2)"
    using sorted s(1) by simp
  have right: "\<forall>p \<in> set ps2. key p \<le> key ?x"
    using s(3) past by blast
  have left: "\<forall>p \<in> set ps1. key ?x \<le> key p"
  proof
    fix p assume p: "p \<in> set ps1"
    then have ne: "ps1 \<noteq> []" by auto
    with s(4) have "key ?x \<le> key (last ps1)" using stop by blast
    moreover have "key (last ps1) \<le> key p"
    proof (cases "p = last ps1")
      case True
      then show ?thesis by simp
    next
      case False
      from ne have ps1: "ps1 = butlast ps1 @ [last ps1]" by simp
      with p False have "p \<in> set (butlast ps1)"
        by (metis Un_iff empty_iff empty_set set_ConsD set_append)
      moreover have "sorted_wrt (\<lambda>a b. key b \<le> key a) (butlast ps1 @ [last ps1])"
        using s12 ps1 by (metis sorted_wrt_append)
      ultimately show ?thesis by (simp add: sorted_wrt_append)
    qed
    ultimately show "key ?x \<le> key p" by simp
  qed
  have "sorted_wrt (\<lambda>a b. key b \<le> key a) (ps1 @ ?x # ps2)"
    using s12 left right by (auto simp: sorted_wrt_append)
  moreover have "mset (ps1 @ ?x # ps2 @ ?rest) = mset c"
  proof -
    have "mset (ps1 @ ?x # ps2 @ ?rest) = mset ((ps1 @ ps2) @ ?x # ?rest)" by simp
    also have "\<dots> = mset c" using c s(1) by simp
    finally show ?thesis .
  qed
  moreover have "length (ps1 @ ?x # ps2 @ ?rest) = length c"
    using \<open>mset (ps1 @ ?x # ps2 @ ?rest) = mset c\<close> by (rule mset_eq_length)
  ultimately show ?thesis using res tk by simp
qed

lemma Sort_upto:
  assumes el: "\<And>c i j. i < length c \<Longrightarrow> j < length c \<Longrightarrow> lt c i j = cmp (c ! i) (c ! j)"
    and past: "\<And>x p. cmp x p \<Longrightarrow> key p \<le> key x"
    and stop: "\<And>x p. \<not> cmp x p \<Longrightarrow> key x \<le> key p"
  shows "k \<le> length c \<Longrightarrow>
         length (foldl (insertionSort_inner lt) c [1..<k]) = length c \<and>
         mset (foldl (insertionSort_inner lt) c [1..<k]) = mset c \<and>
         sorted_wrt (\<lambda>a b. (key b :: 'k :: linorder) \<le> key a)
           (take k (foldl (insertionSort_inner lt) c [1..<k]))"
proof (induction k)
  case 0
  show ?case by simp
next
  case (Suc k)
  show ?case
  proof (cases "k = 0")
    case True
    have "sorted_wrt (\<lambda>a b. key b \<le> key a) (take (Suc 0) c)"
      by (cases c) simp_all
    with True show ?thesis by simp
  next
    case False
    let ?d = "foldl (insertionSort_inner lt) c [1..<k]"
    from Suc have d: "length ?d = length c" "mset ?d = mset c"
      "sorted_wrt (\<lambda>a b. key b \<le> key a) (take k ?d)" by simp_all
    from False have up: "[1..<Suc k] = [1..<k] @ [k]" by simp
    have kd: "k < length ?d" using Suc.prems d(1) by simp
    from insertionSort_inner_sorted [of lt cmp key k ?d, OF el past stop kd d(3)]
    show ?thesis using d up by simp
  qed
qed

lemma Sort_Reverse_Less:
  "mset (Sort (Reverse Less) c) = mset c \<and>
   sorted_wrt (\<lambda>a b. versionKey (Version b) \<le> versionKey (Version a)) (Sort (Reverse Less) c)"
proof -
  let ?cmp = "\<lambda>x p. VersionOrdering (Version p) (Version x)"
  have el: "\<And>c i j. i < length c \<Longrightarrow> j < length c \<Longrightarrow>
              Reverse Less c i j = ?cmp (c ! i) (c ! j)"
    by (simp add: Reverse_def Less_def)
  have past: "\<And>x p. ?cmp x p \<Longrightarrow> versionKey (Version p) \<le> versionKey (Version x)"
    by (rule VersionOrdering_le)
  have stop: "\<And>x p. \<not> ?cmp x p \<Longrightarrow> versionKey (Version x) \<le> versionKey (Version p)"
    by (rule not_VersionOrdering_le)
  have le: "length c \<le> length c" by simp
  let ?d = "foldl (insertionSort_inner (Reverse Less)) c [1..<length c]"
  note u = Sort_upto [of "Reverse Less" ?cmp "\<lambda>a. versionKey (Version a)" "length c" c,
      OF el past stop le]
  have r: "length ?d = length c" "mset ?d = mset c"
    "sorted_wrt (\<lambda>a b. versionKey (Version b) \<le> versionKey (Version a)) (take (length c) ?d)"
    using u by blast+
  from r(1) have "take (length c) ?d = ?d" by simp
  with r show ?thesis by (simp add: Sort_def Len_def)
qed

lemma descending_first:
  assumes d: "sorted_wrt (\<lambda>a b. versionKey (Version b) \<le> versionKey (Version a)) ws"
    and a: "a \<in> set ws"
  shows "ws \<noteq> [] \<and> versionKey (Version a) \<le> versionKey (Version (ws ! 0))"
proof -
  from a have ne: "ws \<noteq> []" by auto
  then obtain w rest where ws: "ws = w # rest" by (cases ws) auto
  with d a have "versionKey (Version a) \<le> versionKey (Version w)" by auto
  with ne ws show ?thesis by simp
qed

lemma descending_malformed_last:
  assumes d: "sorted_wrt (\<lambda>a b. versionKey (Version b) \<le> versionKey (Version a)) ws"
    and m: "m < length ws" and g: "g < length ws"
    and bad: "NewVersion (Version (ws ! m)) = None"
    and good: "NewVersion (Version (ws ! g)) \<noteq> None"
  shows "g < m"
proof (rule ccontr)
  assume "\<not> g < m"
  moreover from bad good have "g \<noteq> m" by auto
  ultimately have "m < g" by simp
  with d g have "versionKey (Version (ws ! g)) \<le> versionKey (Version (ws ! m))"
    by (simp add: sorted_wrt_iff_nth_less)
  moreover from bad have "versionKey (Version (ws ! m)) = None" by (simp add: versionKey_def)
  ultimately have "versionKey (Version (ws ! g)) = None"
    by (cases "versionKey (Version (ws ! g))") simp_all
  with good show False by (simp add: versionKey_def)
qed

text \<open>
  Claim C2. For every index and every name, whatever mix of version strings that
  parse and that do not the list holds: after \<open>SortEntries\<close> the list of the name is
  a permutation of the list before; if any record of the list has a version that
  parses, the record at index 0 has one too, and no version of the list that parses is
  greater; and every record whose version does not parse stands after every record
  whose version parses.
\<close>

theorem SortEntries_highest_first:
  assumes "Entries i name = Some vs"
  shows "\<exists>ws. Entries (SortEntries i) name = Some ws \<and> mset ws = mset vs \<and>
           (\<forall>a \<in> set vs. \<forall>va. NewVersion (Version a) = Some va \<longrightarrow>
              (\<exists>v0. ws \<noteq> [] \<and> ws ! 0 \<in> set vs \<and> NewVersion (Version (ws ! 0)) = Some v0 \<and>
                    \<not> LessThan v0 va)) \<and>
           (\<forall>m g. m < length ws \<and> g < length ws \<and>
                  NewVersion (Version (ws ! m)) = None \<and>
                  NewVersion (Version (ws ! g)) \<noteq> None \<longrightarrow> g < m)"
proof -
  let ?ws = "Sort (Reverse Less) vs"
  have e: "Entries (SortEntries i) name = Some ?ws"
    using assms by (simp add: SortEntries_def)
  have ms: "mset ?ws = mset vs"
    and d: "sorted_wrt (\<lambda>a b. versionKey (Version b) \<le> versionKey (Version a)) ?ws"
    using Sort_Reverse_Less [of vs] by blast+
  have sets: "set ?ws = set vs" using ms by (rule mset_eq_setD)
  have top: "\<forall>a \<in> set vs. \<forall>va. NewVersion (Version a) = Some va \<longrightarrow>
              (\<exists>v0. ?ws \<noteq> [] \<and> ?ws ! 0 \<in> set vs \<and> NewVersion (Version (?ws ! 0)) = Some v0 \<and>
                    \<not> LessThan v0 va)"
  proof (intro ballI allI impI)
    fix a va
    assume a: "a \<in> set vs" and va: "NewVersion (Version a) = Some va"
    from a sets have "a \<in> set ?ws" by simp
    from descending_first [OF d this]
    have ne: "?ws \<noteq> []" and le: "versionKey (Version a) \<le> versionKey (Version (?ws ! 0))"
      by blast+
    from ne have in0: "?ws ! 0 \<in> set vs" using sets by (metis length_greater_0_conv nth_mem)
    from va have ka: "versionKey (Version a) = Some (semverKey va)"
      by (simp add: versionKey_def)
    with le obtain k0 where k0: "versionKey (Version (?ws ! 0)) = Some k0" "semverKey va \<le> k0"
      by (cases "versionKey (Version (?ws ! 0))") auto
    then obtain v0 where v0: "NewVersion (Version (?ws ! 0)) = Some v0" "semverKey v0 = k0"
      by (auto simp: versionKey_def)
    with k0 have "\<not> LessThan v0 va" by (simp add: LessThan_key not_less)
    with ne in0 v0 show "\<exists>v0. ?ws \<noteq> [] \<and> ?ws ! 0 \<in> set vs \<and>
          NewVersion (Version (?ws ! 0)) = Some v0 \<and> \<not> LessThan v0 va"
      by blast
  qed
  have last: "\<forall>m g. m < length ?ws \<and> g < length ?ws \<and>
                  NewVersion (Version (?ws ! m)) = None \<and>
                  NewVersion (Version (?ws ! g)) \<noteq> None \<longrightarrow> g < m"
    using descending_malformed_last [OF d] by blast
  from e ms top last show ?thesis by blast
qed

lemma SortEntries_example:
  "Entries (SortEntries exMixed) ''x'' =
     Some [mkChart ''x'' ''2.0.0'' ''D4'', mkChart ''x'' ''2.0.0-rc1'' ''D3'',
           mkChart ''x'' ''1.0.0'' ''D2'', mkChart ''x'' ''bad'' ''D1'']"
  by code_simp

theorem SortEntries_highest_first_witness:
  "Entries exMixed ''x'' =
     Some [mkChart ''x'' ''bad'' ''D1'', mkChart ''x'' ''1.0.0'' ''D2'',
           mkChart ''x'' ''2.0.0-rc1'' ''D3'', mkChart ''x'' ''2.0.0'' ''D4''] \<and>
   (\<exists>ws. Entries (SortEntries exMixed) ''x'' = Some ws \<and>
         mset ws = mset [mkChart ''x'' ''bad'' ''D1'', mkChart ''x'' ''1.0.0'' ''D2'',
                         mkChart ''x'' ''2.0.0-rc1'' ''D3'', mkChart ''x'' ''2.0.0'' ''D4''] \<and>
         Version (ws ! 0) = ''2.0.0'' \<and> Version (ws ! 3) = ''bad'')"
proof -
  let ?vs = "[mkChart ''x'' ''bad'' ''D1'', mkChart ''x'' ''1.0.0'' ''D2'',
              mkChart ''x'' ''2.0.0-rc1'' ''D3'', mkChart ''x'' ''2.0.0'' ''D4'']"
  have e: "Entries exMixed ''x'' = Some ?vs"
    by (simp add: exMixed_def mkIndex_def)
  obtain ws where ws: "Entries (SortEntries exMixed) ''x'' = Some ws" "mset ws = mset ?vs"
    using SortEntries_highest_first [OF e] by blast
  from ws(1) have "ws = [mkChart ''x'' ''2.0.0'' ''D4'', mkChart ''x'' ''2.0.0-rc1'' ''D3'',
           mkChart ''x'' ''1.0.0'' ''D2'', mkChart ''x'' ''bad'' ''D1'']"
    using SortEntries_example by simp
  then have "Version (ws ! 0) = ''2.0.0'' \<and> Version (ws ! 3) = ''bad''"
    by (simp add: mkChart_def)
  with e ws show ?thesis by blast
qed

end
